theory Spec2Isabelle
  imports Main "HOL-Library.Sublist" "HOL-Library.Word"
begin

section \<open>Library functions used by the server\<close>

text \<open>
  The server is built for Linux (\<^verbatim>\<open>GOOS=linux\<close>), so \<^verbatim>\<open>path/filepath\<close> has the Unix
  behaviour: the separator is the slash, there are no volume names, and a backslash is an
  ordinary byte of a file name. A Go string is a sequence of bytes, which is what
  \<^typ>\<open>string\<close> is here.
\<close>

subsection \<open>Package strings\<close>

definition strings_HasPrefix :: "string \<Rightarrow> string \<Rightarrow> bool" where
  "strings_HasPrefix s pre = (length pre \<le> length s \<and> take (length pre) s = pre)"

definition strings_HasSuffix :: "string \<Rightarrow> string \<Rightarrow> bool" where
  "strings_HasSuffix s suf =
     (length suf \<le> length s \<and> drop (length s - length suf) s = suf)"

definition strings_TrimPrefix :: "string \<Rightarrow> string \<Rightarrow> string" where
  "strings_TrimPrefix s pre = (if strings_HasPrefix s pre then drop (length pre) s else s)"

fun strings_Contains :: "string \<Rightarrow> string \<Rightarrow> bool" where
  "strings_Contains [] sub = (sub = [])"
| "strings_Contains (c # cs) sub = (strings_HasPrefix (c # cs) sub \<or> strings_Contains cs sub)"

fun strings_Join :: "string list \<Rightarrow> string \<Rightarrow> string" where
  "strings_Join [] sep = []"
| "strings_Join [e] sep = e"
| "strings_Join (e # es) sep = e @ sep @ strings_Join es sep"

subsection \<open>Package path/filepath (Unix)\<close>

definition IsPathSeparator :: "char \<Rightarrow> bool" where
  "IsPathSeparator c = (c = CHR ''/'')"

text \<open>
  \<^verbatim>\<open>Clean\<close> reads the path from left to right and writes into a buffer; \<open>out\<close> is the
  buffer's content \<^verbatim>\<open>buf[0:w]\<close>, \<open>dotdot\<close> the index below which a \<^verbatim>\<open>..\<close> element
  cannot remove anything. On a \<^verbatim>\<open>..\<close> element that can backtrack, \<^verbatim>\<open>w\<close> is decremented
  once and then further while it is above \<open>dotdot\<close> and the byte at \<^verbatim>\<open>w\<close> is not a
  separator.
\<close>

function backtrack :: "string \<Rightarrow> nat \<Rightarrow> nat \<Rightarrow> nat" where
  "backtrack buf w dotdot =
     (if w > dotdot \<and> \<not> IsPathSeparator (buf ! w) then backtrack buf (w - 1) dotdot else w)"
  by pat_completeness auto
termination
  by (relation "measure (\<lambda>(buf, w, dotdot). w)") auto

declare backtrack.simps [simp del]

definition atEndOrSep :: "string \<Rightarrow> bool" where
  "atEndOrSep rest = (case rest of [] \<Rightarrow> True | x # _ \<Rightarrow> IsPathSeparator x)"

definition notSep :: "char \<Rightarrow> bool" where
  "notSep x = (\<not> IsPathSeparator x)"

text \<open>
  The loop looks at the byte \<open>c\<close> at the read index and at the bytes \<open>rest\<close> after it:
  a \<^verbatim>\<open>.\<close> element is a dot followed by the end of the path or a separator, a \<^verbatim>\<open>..\<close>
  element two dots followed by the end or a separator. The second test is only reached
  when the first fails, so that \<open>rest\<close> is not empty when its head is read.
\<close>

definition dotElem :: "char \<Rightarrow> string \<Rightarrow> bool" where
  "dotElem c rest = (c = CHR ''.'' \<and> atEndOrSep rest)"

definition dotdotElem :: "char \<Rightarrow> string \<Rightarrow> bool" where
  "dotdotElem c rest = (c = CHR ''.'' \<and> hd rest = CHR ''.'' \<and> atEndOrSep (tl rest))"

function cleanLoop :: "bool \<Rightarrow> string \<Rightarrow> string \<Rightarrow> nat \<Rightarrow> string" where
  "cleanLoop rooted [] out dotdot = out"
| "cleanLoop rooted (c # rest) out dotdot =
     (if IsPathSeparator c then cleanLoop rooted rest out dotdot
      else if dotElem c rest then cleanLoop rooted rest out dotdot
      else if dotdotElem c rest then
        (if length out > dotdot then
           cleanLoop rooted (tl rest) (take (backtrack out (length out - 1) dotdot) out) dotdot
         else if \<not> rooted then
           cleanLoop rooted (tl rest) ((if length out > 0 then out @ ''/'' else out) @ ''..'')
             (length ((if length out > 0 then out @ ''/'' else out) @ ''..''))
         else cleanLoop rooted (tl rest) out dotdot)
      else
        cleanLoop rooted (dropWhile notSep rest)
          ((if (rooted \<and> length out \<noteq> 1) \<or> (\<not> rooted \<and> length out \<noteq> 0) then out @ ''/'' else out)
             @ c # takeWhile notSep rest)
          dotdot)"
  by pat_completeness auto
termination
  by (relation "measure (\<lambda>(rooted, path, out, dotdot). length path)")
     (auto intro: le_imp_less_Suc length_dropWhile_le)

declare cleanLoop.simps [simp del]

definition filepath_Clean :: "string \<Rightarrow> string" where
  "filepath_Clean path =
     (if path = [] then ''.''
      else let out = (if IsPathSeparator (hd path) then cleanLoop True (tl path) ''/'' 1
                      else cleanLoop False path [] 0)
           in if out = [] then ''.'' else out)"

fun filepath_Join :: "string list \<Rightarrow> string" where
  "filepath_Join [] = []"
| "filepath_Join (e # es) =
     (if e \<noteq> [] then filepath_Clean (strings_Join (e # es) ''/'') else filepath_Join es)"

definition filepath_IsAbs :: "string \<Rightarrow> bool" where
  "filepath_IsAbs path = strings_HasPrefix path ''/''"

text \<open>
  \<^verbatim>\<open>Abs\<close> asks the operating system for the working directory when the path is relative;
  \<open>wd\<close> is the answer of \<^verbatim>\<open>os.Getwd\<close>, \<open>None\<close> when it fails.
\<close>

definition filepath_Abs :: "string option \<Rightarrow> string \<Rightarrow> string option" where
  "filepath_Abs wd path =
     (if filepath_IsAbs path then Some (filepath_Clean path)
      else case wd of None \<Rightarrow> None | Some d \<Rightarrow> Some (filepath_Join [d, path]))"

fun extScan :: "string \<Rightarrow> nat \<Rightarrow> string" where
  "extScan path 0 = []"
| "extScan path (Suc i) =
     (if IsPathSeparator (path ! i) then []
      else if path ! i = CHR ''.'' then drop i path
      else extScan path i)"

definition filepath_Ext :: "string \<Rightarrow> string" where
  "filepath_Ext path = extScan path (length path)"

fun stripTrailingSeps :: "string \<Rightarrow> nat \<Rightarrow> nat" where
  "stripTrailingSeps path 0 = 0"
| "stripTrailingSeps path (Suc n) =
     (if IsPathSeparator (path ! n) then stripTrailingSeps path n else Suc n)"

fun lastElemStart :: "string \<Rightarrow> nat \<Rightarrow> nat" where
  "lastElemStart path 0 = 0"
| "lastElemStart path (Suc i) = (if \<not> IsPathSeparator (path ! i) then lastElemStart path i else Suc i)"

definition filepath_Base :: "string \<Rightarrow> string" where
  "filepath_Base path0 =
     (if path0 = [] then ''.''
      else let path = take (stripTrailingSeps path0 (length path0)) path0;
               path' = drop (lastElemStart path (length path)) path
           in if path' = [] then ''/'' else path')"

subsection \<open>Package time\<close>

text \<open>
  An instant (\<^verbatim>\<open>time.Time\<close> without its monotonic reading, which \<^verbatim>\<open>In\<close> strips) is the
  number of nanoseconds since the Unix epoch. The instants the server handles come from
  the clock, far inside the range of the library's representation, so they are unbounded
  integers here. A \<^verbatim>\<open>*time.Location\<close> is its \<^verbatim>\<open>lookup\<close> function: for a Unix time in
  seconds, the offset east of UTC in effect and the interval \<open>[start, end)\<close> of Unix times
  over which that zone applies.
\<close>

type_synonym location = "int \<Rightarrow> int \<times> int \<times> int"

definition FixedZone :: "int \<Rightarrow> location" where
  "FixedZone offset = (\<lambda>sec. (offset, - (2 ^ 63), 2 ^ 63 - 1))"

text \<open>
  The transitions of \<^verbatim>\<open>America/Chicago\<close> around 2025, from the time zone database:
  daylight time (UTC-5) from 2025-03-09 08:00 UTC to 2025-11-02 07:00 UTC, standard time
  (UTC-6) before, from 2024-11-03 07:00 UTC, and after, until 2026-03-08 08:00 UTC. The
  function agrees with the zone's \<^verbatim>\<open>lookup\<close> between the first and the last of these
  instants.
\<close>

definition chicago2025 :: location where
  "chicago2025 sec =
     (if sec < 1741507200 then (- 21600, 1730617200, 1741507200)
      else if sec < 1762066800 then (- 18000, 1741507200, 1762066800)
      else (- 21600, 1762066800, 1772956800))"

text \<open>
  The proleptic Gregorian calendar. \<open>daysSinceEpoch year\<close> is the number of days from
  1970-01-01 to the first of January of \<open>year\<close>; months are numbered from 1.
\<close>

definition isLeap :: "int \<Rightarrow> bool" where
  "isLeap year = (year mod 4 = 0 \<and> (year mod 100 \<noteq> 0 \<or> year mod 400 = 0))"

definition daysBefore :: "int list" where
  "daysBefore = [0, 31, 59, 90, 120, 151, 181, 212, 243, 273, 304, 334, 365]"

definition daysIn :: "nat \<Rightarrow> int \<Rightarrow> int" where
  "daysIn m year = (if m = 2 \<and> isLeap year then 29 else daysBefore ! m - daysBefore ! (m - 1))"

definition daysSinceEpoch :: "int \<Rightarrow> int" where
  "daysSinceEpoch year =
     365 * (year - 1970) + ((year - 1) div 4 - 492) - ((year - 1) div 100 - 19)
       + ((year - 1) div 400 - 4)"

definition daysBeforeMonth :: "int \<Rightarrow> nat \<Rightarrow> int" where
  "daysBeforeMonth year m = daysBefore ! (m - 1) + (if isLeap year \<and> 3 \<le> m then 1 else 0)"

definition civilSeconds :: "int \<Rightarrow> nat \<Rightarrow> int \<Rightarrow> int \<Rightarrow> int" where
  "civilSeconds year m day hour =
     (daysSinceEpoch year + daysBeforeMonth year m + (day - 1)) * 86400 + hour * 3600"

text \<open>
  \<^verbatim>\<open>Date\<close> in a location, for fields already in range: the fields are first read as UTC,
  the zone in effect at that Unix time gives an offset, and when the time so corrected
  falls outside that zone's interval the offset is looked up again at the corrected time.
  The result is an instant with no nanoseconds.
\<close>

definition time_Date :: "int \<Rightarrow> nat \<Rightarrow> int \<Rightarrow> int \<Rightarrow> location \<Rightarrow> int" where
  "time_Date year m day hour loc =
     (let unix = civilSeconds year m day hour in
      case loc unix of (offset, start, finish) \<Rightarrow>
        1000000000 *
          (if offset \<noteq> 0 then
             (let utc = unix - offset in
              if utc < start \<or> utc \<ge> finish then unix - fst (loc utc) else unix - offset)
           else unix))"

text \<open>
  From days since the epoch back to a date: the year is found by counting up from a year
  that is not after it, the month by comparing the day of the year with the table.
\<close>

function yearFrom :: "int \<Rightarrow> int \<Rightarrow> int" where
  "yearFrom days year = (if daysSinceEpoch (year + 1) \<le> days then yearFrom days (year + 1) else year)"
  by pat_completeness auto
termination
proof (relation "measure (\<lambda>(days, year). nat (days + 1 - daysSinceEpoch (year + 1)))")
  show "wf (measure (\<lambda>(days, year). nat (days + 1 - daysSinceEpoch (year + 1))))"
    by simp
next
  fix days year :: int
  assume le: "daysSinceEpoch (year + 1) \<le> days"
  have "daysSinceEpoch (year + 1) < daysSinceEpoch (year + 1 + 1)"
    unfolding daysSinceEpoch_def by simp
  with le show "((days, year + 1), (days, year)) \<in> measure (\<lambda>(days, year). nat (days + 1 - daysSinceEpoch (year + 1)))"
    by simp
qed

declare yearFrom.simps [simp del]

definition yearOf :: "int \<Rightarrow> int" where
  "yearOf days = yearFrom days (1970 + (if 0 \<le> days then days div 366 else days div 365))"

definition monthOf :: "int \<Rightarrow> int \<Rightarrow> nat" where
  "monthOf year yday =
     (if yday < daysBeforeMonth year 2 then 1
      else if yday < daysBeforeMonth year 3 then 2
      else if yday < daysBeforeMonth year 4 then 3
      else if yday < daysBeforeMonth year 5 then 4
      else if yday < daysBeforeMonth year 6 then 5
      else if yday < daysBeforeMonth year 7 then 6
      else if yday < daysBeforeMonth year 8 then 7
      else if yday < daysBeforeMonth year 9 then 8
      else if yday < daysBeforeMonth year 10 then 9
      else if yday < daysBeforeMonth year 11 then 10
      else if yday < daysBeforeMonth year 12 then 11
      else 12)"

text \<open>
  \<^verbatim>\<open>appendInt\<close> writes an integer in decimal, with a minus sign when negative and
  zero-padded to the width; \<^verbatim>\<open>Format\<close> with the layout \<^verbatim>\<open>2006-01-02T15\<close> writes the year
  with width 4 and month, day and hour with width 2, in the civil time of the location.
\<close>

function decimal :: "nat \<Rightarrow> string" where
  "decimal u = (if u < 10 then [char_of (48 + u)] else decimal (u div 10) @ [char_of (48 + u mod 10)])"
  by pat_completeness auto
termination
  by (relation "measure id") auto

declare decimal.simps [simp del]

definition appendInt :: "int \<Rightarrow> nat \<Rightarrow> string" where
  "appendInt x width =
     (if x < 0 then ''-'' else []) @ replicate (width - length (decimal (nat \<bar>x\<bar>))) CHR ''0''
       @ decimal (nat \<bar>x\<bar>)"

definition Format :: "location \<Rightarrow> int \<Rightarrow> string" where
  "Format loc now =
     (let sec = now div 1000000000;
          abs = sec + fst (loc sec);
          days = abs div 86400;
          hour = (abs mod 86400) div 3600;
          year = yearOf days;
          yday = days - daysSinceEpoch year;
          month = monthOf year yday;
          day = yday - daysBeforeMonth year month + 1
      in appendInt year 4 @ ''-'' @ appendInt (int month) 2 @ ''-'' @ appendInt day 2
           @ ''T'' @ appendInt hour 2)"

text \<open>
  \<^verbatim>\<open>ParseInLocation\<close> with the layout \<^verbatim>\<open>2006-01-02T15.log\<close>: a year of exactly four digits,
  month and day of exactly two digits, an hour of one or two digits (\<^verbatim>\<open>getnum\<close> is called
  with \<^verbatim>\<open>fixed = false\<close> for the hour), the literal texts in between and nothing after
  \<^verbatim>\<open>.log\<close>. Month and hour are checked for their range when read, the day against the
  length of the month at the end. None of the literal texts of this layout contains a
  space, so \<^verbatim>\<open>skip\<close> compares byte by byte.
\<close>

definition digitByte :: "char \<Rightarrow> bool" where
  "digitByte c = (48 \<le> (of_char c :: nat) \<and> (of_char c :: nat) \<le> 57)"

definition isDigit :: "string \<Rightarrow> nat \<Rightarrow> bool" where
  "isDigit s i = (i < length s \<and> digitByte (s ! i))"

definition digitAt :: "string \<Rightarrow> nat \<Rightarrow> int" where
  "digitAt s i = int (of_char (s ! i)) - 48"

definition getnum :: "string \<Rightarrow> bool \<Rightarrow> (int \<times> string) option" where
  "getnum s fixed =
     (if \<not> isDigit s 0 then None
      else if \<not> isDigit s 1 then (if fixed then None else Some (digitAt s 0, drop 1 s))
      else Some (digitAt s 0 * 10 + digitAt s 1, drop 2 s))"

fun skip :: "string \<Rightarrow> string \<Rightarrow> string option" where
  "skip val [] = Some val"
| "skip [] (p # ps) = None"
| "skip (v # vs) (p # ps) = (if v \<noteq> p then None else skip vs ps)"

definition parseYear :: "string \<Rightarrow> (int \<times> string) option" where
  "parseYear val =
     (if length val < 4 \<or> \<not> isDigit val 0 then None
      else if \<not> (isDigit val 1 \<and> isDigit val 2 \<and> isDigit val 3) then None
      else Some (digitAt val 0 * 1000 + digitAt val 1 * 100 + digitAt val 2 * 10 + digitAt val 3,
                 drop 4 val))"

definition ParseInLocation :: "string \<Rightarrow> location \<Rightarrow> int option" where
  "ParseInLocation val0 loc =
     (case parseYear val0 of None \<Rightarrow> None | Some (year, val1) \<Rightarrow>
      case skip val1 ''-'' of None \<Rightarrow> None | Some val2 \<Rightarrow>
      case getnum val2 True of None \<Rightarrow> None | Some (month, val3) \<Rightarrow>
      if month \<le> 0 \<or> 12 < month then None else
      case skip val3 ''-'' of None \<Rightarrow> None | Some val4 \<Rightarrow>
      case getnum val4 True of None \<Rightarrow> None | Some (day, val5) \<Rightarrow>
      case skip val5 ''T'' of None \<Rightarrow> None | Some val6 \<Rightarrow>
      case getnum val6 False of None \<Rightarrow> None | Some (hour, val7) \<Rightarrow>
      if hour < 0 \<or> 24 \<le> hour then None else
      case skip val7 ''.log'' of None \<Rightarrow> None | Some val8 \<Rightarrow>
      if val8 \<noteq> [] then None
      else if day < 1 \<or> day > daysIn (nat month) year then None
      else Some (time_Date year (nat month) day hour loc))"

text \<open>
  A \<^verbatim>\<open>time.Duration\<close> is a signed 64-bit count of nanoseconds, and its arithmetic wraps.
\<close>

definition Hour :: "64 word" where
  "Hour = 3600000000000"

subsection \<open>Notions for the proofs about \<^verbatim>\<open>Clean\<close>\<close>

text \<open>
  Two notions for reasoning about \<^verbatim>\<open>Clean\<close>: a path element that is copied as it is (not
  empty, without separator, neither \<^verbatim>\<open>.\<close> nor \<^verbatim>\<open>..\<close>), and what the loop writes for
  such an element: a separator unless the buffer is empty or holds only the root's slash,
  then the element.
\<close>

definition goodElem :: "string \<Rightarrow> bool" where
  "goodElem e = (e \<noteq> [] \<and> CHR ''/'' \<notin> set e \<and> e \<noteq> ''.'' \<and> e \<noteq> ''..'')"

definition appendElem :: "bool \<Rightarrow> string \<Rightarrow> string \<Rightarrow> string" where
  "appendElem rooted out e =
     (if (rooted \<and> length out \<noteq> 1) \<or> (\<not> rooted \<and> length out \<noteq> 0) then out @ ''/'' else out) @ e"

text \<open>A buffer that starts with the root's slash.\<close>

definition rootedBuf :: "string \<Rightarrow> bool" where
  "rootedBuf out = (out \<noteq> [] \<and> hd out = CHR ''/'')"

section \<open>The server\<close>

record Server =
  wwwRoot :: string
  logDir :: string
  location :: location
  retentionHours :: int

text \<open>
  The server that \<^verbatim>\<open>main\<close> builds when the environment sets neither \<^verbatim>\<open>WWW_ROOT\<close> nor
  \<^verbatim>\<open>LOG_DIR\<close>, for a given location.
\<close>

definition mainServer :: "location \<Rightarrow> Server" where
  "mainServer loc =
     \<lparr>wwwRoot = ''/var/www'', logDir = ''/var/log/app'', location = loc, retentionHours = 168\<rparr>"

subsection \<open>Extension lists\<close>

text \<open>
  The two package-level maps \<^verbatim>\<open>map[string]bool\<close>. Reading a key that is absent gives
  \<^verbatim>\<open>false\<close>.
\<close>

definition allowedExts :: "string \<rightharpoonup> bool" where
  "allowedExts =
     [''.html'' \<mapsto> True, ''.css'' \<mapsto> True, ''.js'' \<mapsto> True, ''.png'' \<mapsto> True,
      ''.jpg'' \<mapsto> True, ''.jpeg'' \<mapsto> True, ''.gif'' \<mapsto> True, ''.svg'' \<mapsto> True,
      ''.webp'' \<mapsto> True, ''.ico'' \<mapsto> True, ''.json'' \<mapsto> True, ''.txt'' \<mapsto> True,
      ''.md'' \<mapsto> True]"

definition blockedExts :: "string \<rightharpoonup> bool" where
  "blockedExts = [''.log'' \<mapsto> True]"

definition index :: "(string \<rightharpoonup> bool) \<Rightarrow> string \<Rightarrow> bool" where
  "index m key = (case m key of None \<Rightarrow> False | Some b \<Rightarrow> b)"

subsection \<open>The response recorder\<close>

text \<open>
  The embedded \<^verbatim>\<open>http.ResponseWriter\<close> is represented by the calls it has received, oldest
  first. \<^verbatim>\<open>Header\<close> is promoted from the embedded writer, so header changes reach it
  directly. What its \<^verbatim>\<open>Write\<close> returns as the number of bytes written is decided by the
  writer, not by the recorder: it is an argument of the model's \<open>Write\<close>.
  \<^verbatim>\<open>bytesWritten\<close> is an \<^verbatim>\<open>int64\<close>.
\<close>

datatype writerCall =
    HeaderDel string
  | HeaderSet string string
  | WriterWriteHeader int
  | WriterWrite string

record responseRecorder =
  ResponseWriter :: "writerCall list"
  statusCode :: int
  bytesWritten :: "64 word"
  wroteHeader :: bool

definition WriteHeader :: "int \<Rightarrow> responseRecorder \<Rightarrow> responseRecorder" where
  "WriteHeader code rr =
     (if \<not> wroteHeader rr then
        rr\<lparr>statusCode := code, wroteHeader := True,
           ResponseWriter := ResponseWriter rr @ [WriterWriteHeader code]\<rparr>
      else rr)"

definition Write :: "string \<Rightarrow> int \<Rightarrow> responseRecorder \<Rightarrow> responseRecorder" where
  "Write p n rr =
     (let rr1 = (if \<not> wroteHeader rr then WriteHeader 200 rr else rr);
          rr2 = rr1\<lparr>ResponseWriter := ResponseWriter rr1 @ [WriterWrite p]\<rparr>
      in rr2\<lparr>bytesWritten := bytesWritten rr2 + word_of_int n\<rparr>)"

text \<open>
  What a caller does with the recorder: a sequence of calls, each \<open>Write\<close> with the count
  the embedded writer returns for it.
\<close>

datatype recorderCall =
    CallHeaderDel string
  | CallHeaderSet string string
  | CallWriteHeader int
  | CallWrite string int

fun call :: "recorderCall \<Rightarrow> responseRecorder \<Rightarrow> responseRecorder" where
  "call (CallHeaderDel k) rr = rr\<lparr>ResponseWriter := ResponseWriter rr @ [HeaderDel k]\<rparr>"
| "call (CallHeaderSet k v) rr = rr\<lparr>ResponseWriter := ResponseWriter rr @ [HeaderSet k v]\<rparr>"
| "call (CallWriteHeader code) rr = WriteHeader code rr"
| "call (CallWrite p n) rr = Write p n rr"

fun calls :: "recorderCall list \<Rightarrow> responseRecorder \<Rightarrow> responseRecorder" where
  "calls [] rr = rr"
| "calls (c # cs) rr = calls cs (call c rr)"

text \<open>
  For stating what the recorder keeps: the sum of the counts the embedded writer reported
  for the \<open>Write\<close> calls of a sequence, and the \<^verbatim>\<open>WriteHeader\<close> calls that reached the
  embedded writer.
\<close>

fun reported :: "recorderCall list \<Rightarrow> int" where
  "reported [] = 0"
| "reported (CallWrite p n # cs) = n + reported cs"
| "reported (c # cs) = reported cs"

fun isWriteHeader :: "writerCall \<Rightarrow> bool" where
  "isWriteHeader (WriterWriteHeader code) = True"
| "isWriteHeader c = False"

definition forwardedHeaders :: "responseRecorder \<Rightarrow> writerCall list" where
  "forwardedHeaders rr = filter isWriteHeader (ResponseWriter rr)"

text \<open>
  \<^verbatim>\<open>http.Error\<close> removes the \<^verbatim>\<open>Content-Length\<close> header, sets the content type to plain
  text and \<^verbatim>\<open>X-Content-Type-Options\<close>, writes the status and then the message followed by
  a newline. \<open>written\<close> tells what the embedded writer returns for a body.
\<close>

definition http_Error :: "(string \<Rightarrow> int) \<Rightarrow> string \<Rightarrow> int \<Rightarrow> responseRecorder \<Rightarrow> responseRecorder" where
  "http_Error written msg code w =
     calls [CallHeaderDel ''Content-Length'',
            CallHeaderSet ''Content-Type'' ''text/plain; charset=utf-8'',
            CallHeaderSet ''X-Content-Type-Options'' ''nosniff'',
            CallWriteHeader code,
            CallWrite (msg @ [CHR 0x0A]) (written (msg @ [CHR 0x0A]))] w"


subsection \<open>Path validation\<close>

datatype pathError =
    DirectoryAccess
  | Subdirectories
  | Traversal
  | TraversalAfterClean
  | AbsRootFailed
  | AbsPathFailed
  | EscapesRoot

definition sanitizePath :: "Server \<Rightarrow> string option \<Rightarrow> string \<Rightarrow> pathError + string" where
  "sanitizePath s wd p0 =
     (let p = strings_TrimPrefix p0 ''/'' in
      if p = [] \<or> p = ''.'' then Inl DirectoryAccess
      else if strings_Contains p ''/'' \<or> strings_Contains p [CHR 0x5C] then Inl Subdirectories
      else if strings_Contains p ''..'' then Inl Traversal
      else
        let clean = filepath_Clean p in
        if strings_Contains clean ''..'' then Inl TraversalAfterClean
        else
          let fullPath = filepath_Join [wwwRoot s, clean] in
          case filepath_Abs wd (wwwRoot s) of
            None \<Rightarrow> Inl AbsRootFailed
          | Some absWwwRoot \<Rightarrow>
              (case filepath_Abs wd fullPath of
                 None \<Rightarrow> Inl AbsPathFailed
               | Some absPath \<Rightarrow>
                   if \<not> strings_HasPrefix absPath (absWwwRoot @ ''/'') \<and> absPath \<noteq> absWwwRoot
                   then Inl EscapesRoot
                   else Inr fullPath))"

subsection \<open>The request handler\<close>

record Request =
  reqMethod :: string
  reqURLPath :: string

record 'd LogEntry =
  Timestamp :: string
  Method :: string
  Path :: string
  Status :: int
  Bytes :: "64 word"
  Duration :: 'd

datatype statResult = ErrNotExist | ErrOther | FileInfo bool

text \<open>
  What the handler gets from outside: the working directory (for \<^verbatim>\<open>filepath.Abs\<close>), the
  answer of \<^verbatim>\<open>os.Stat\<close> for a path (for a file that exists, whether it is a directory),
  \<^verbatim>\<open>strings.ToLower\<close>, the count the connection reports for a body written to it, the calls
  \<^verbatim>\<open>http.ServeFile\<close> makes on the recorder, and the clock's readings for the log entry (the
  formatted timestamp and the duration, a floating-point number left abstract).
\<close>

record 'd handlerEnv =
  getwd :: "string option"
  osStat :: "string \<Rightarrow> statResult"
  ToLower :: "string \<Rightarrow> string"
  written :: "string \<Rightarrow> int"
  ServeFile :: "Request \<Rightarrow> string \<Rightarrow> recorderCall list"
  timestamp :: string
  duration :: 'd

text \<open>
  The steps of one request, in the order in which the handler performs them, ending with
  the response it gives and the log entry of the deferred function.
\<close>

datatype outcome = MethodNotAllowed | Forbidden | NotFound | InternalServerError | Serving

datatype step =
    Received
  | MethodChecked
  | PathValidated
  | Statd
  | ExtensionChecked
  | Respond outcome
  | Logged

text \<open>
  The body of \<open>handleRequest\<close> after the deferred function is registered: every
  \<^verbatim>\<open>return\<close> of the source is a branch. The two extension maps are arguments, so that the
  policy can be stated for any content of the maps.
\<close>

definition handleBody ::
  "(string \<rightharpoonup> bool) \<Rightarrow> (string \<rightharpoonup> bool) \<Rightarrow> Server \<Rightarrow> 'd handlerEnv \<Rightarrow> Request
     \<Rightarrow> responseRecorder \<Rightarrow> responseRecorder \<times> step list" where
  "handleBody allowed blocked s env r wrapped =
     (if reqMethod r \<noteq> ''GET'' \<and> reqMethod r \<noteq> ''HEAD'' then
        (http_Error (written env) ''Method Not Allowed'' 405 wrapped,
         [MethodChecked, Respond MethodNotAllowed])
      else
        case sanitizePath s (getwd env) (reqURLPath r) of
          Inl err \<Rightarrow>
            (http_Error (written env) ''Forbidden'' 403 wrapped,
             [MethodChecked, PathValidated, Respond Forbidden])
        | Inr cleanPath \<Rightarrow>
            (case osStat env cleanPath of
               ErrNotExist \<Rightarrow>
                 (http_Error (written env) ''Not Found'' 404 wrapped,
                  [MethodChecked, PathValidated, Statd, Respond NotFound])
             | ErrOther \<Rightarrow>
                 (http_Error (written env) ''Internal Server Error'' 500 wrapped,
                  [MethodChecked, PathValidated, Statd, Respond InternalServerError])
             | FileInfo isDir \<Rightarrow>
                 if isDir then
                   (http_Error (written env) ''Forbidden'' 403 wrapped,
                    [MethodChecked, PathValidated, Statd, Respond Forbidden])
                 else
                   let ext = ToLower env (filepath_Ext cleanPath) in
                   if index blocked ext then
                     (http_Error (written env) ''Forbidden'' 403 wrapped,
                      [MethodChecked, PathValidated, Statd, ExtensionChecked, Respond Forbidden])
                   else if \<not> index allowed ext then
                     (http_Error (written env) ''Forbidden'' 403 wrapped,
                      [MethodChecked, PathValidated, Statd, ExtensionChecked, Respond Forbidden])
                   else
                     (calls (ServeFile env r cleanPath) wrapped,
                      [MethodChecked, PathValidated, Statd, ExtensionChecked, Respond Serving])))"

text \<open>
  The whole handler: the recorder is created with status 200, the body runs, and the
  deferred function builds one entry from the recorder and passes it to \<open>logRequest\<close>.
  The result holds the calls received by the connection's writer, the steps, and the
  entries passed to \<open>logRequest\<close>.
\<close>

record 'd handled =
  response :: "writerCall list"
  steps :: "step list"
  logged :: "'d LogEntry list"

definition handleRequestWith ::
  "(string \<rightharpoonup> bool) \<Rightarrow> (string \<rightharpoonup> bool) \<Rightarrow> Server \<Rightarrow> 'd handlerEnv \<Rightarrow> Request \<Rightarrow> 'd handled" where
  "handleRequestWith allowed blocked s env r =
     (let wrapped = \<lparr>ResponseWriter = [], statusCode = 200, bytesWritten = 0, wroteHeader = False\<rparr>
      in case handleBody allowed blocked s env r wrapped of
           (wrapped', trace) \<Rightarrow>
             \<lparr>response = ResponseWriter wrapped',
              steps = Received # trace @ [Logged],
              logged = [\<lparr>Timestamp = timestamp env, Method = reqMethod r, Path = reqURLPath r,
                         Status = statusCode wrapped', Bytes = bytesWritten wrapped',
                         Duration = duration env\<rparr>]\<rparr>)"

definition handleRequest :: "Server \<Rightarrow> 'd handlerEnv \<Rightarrow> Request \<Rightarrow> 'd handled" where
  "handleRequest s env r = handleRequestWith allowedExts blockedExts s env r"

text \<open>
  The response of \<^verbatim>\<open>http.Error(wrapped, "Forbidden", http.StatusForbidden)\<close> on a fresh
  recorder, as the connection's writer receives it.
\<close>

definition forbiddenResponse :: "writerCall list" where
  "forbiddenResponse =
     [HeaderDel ''Content-Length'',
      HeaderSet ''Content-Type'' ''text/plain; charset=utf-8'',
      HeaderSet ''X-Content-Type-Options'' ''nosniff'',
      WriterWriteHeader 403,
      WriterWrite (''Forbidden'' @ [CHR 0x0A])]"

text \<open>
  In general, the response of \<^verbatim>\<open>http.Error(wrapped, msg, code)\<close> on a fresh recorder, and
  the recorder after \<^verbatim>\<open>http.ServeFile(wrapped, r, cleanPath)\<close> on a fresh recorder.
\<close>

definition errorResponse :: "string \<Rightarrow> int \<Rightarrow> writerCall list" where
  "errorResponse msg code =
     [HeaderDel ''Content-Length'',
      HeaderSet ''Content-Type'' ''text/plain; charset=utf-8'',
      HeaderSet ''X-Content-Type-Options'' ''nosniff'',
      WriterWriteHeader code,
      WriterWrite (msg @ [CHR 0x0A])]"

definition served :: "'d handlerEnv \<Rightarrow> Request \<Rightarrow> string \<Rightarrow> responseRecorder" where
  "served env r cleanPath =
     calls (ServeFile env r cleanPath)
       \<lparr>ResponseWriter = [], statusCode = 200, bytesWritten = 0, wroteHeader = False\<rparr>"

text \<open>
  For the examples: what \<^verbatim>\<open>strings.ToLower\<close> does to a string of ASCII bytes, and an
  environment in which the working directory is \<^verbatim>\<open>/app\<close>, the connection accepts every
  body whole and \<open>st\<close> answers \<^verbatim>\<open>os.Stat\<close>.
\<close>

definition lowerASCII :: "string \<Rightarrow> string" where
  "lowerASCII str =
     map (\<lambda>c. if 65 \<le> (of_char c :: nat) \<and> (of_char c :: nat) \<le> 90 then char_of (of_char c + 32 :: nat) else c) str"

definition exampleEnv :: "(string \<Rightarrow> statResult) \<Rightarrow> unit handlerEnv" where
  "exampleEnv st =
     \<lparr>getwd = Some ''/app'', osStat = st, ToLower = lowerASCII,
      written = (\<lambda>body. int (length body)),
      ServeFile = (\<lambda>r path. [CallWriteHeader 200, CallWrite ''<html></html>'' 13]),
      timestamp = ''2025-03-10T14:37:00-05:00'', duration = ()\<rparr>"

subsection \<open>Log files and retention\<close>

text \<open>
  \<open>now\<close> is the reading of \<^verbatim>\<open>time.Now()\<close>. In \<open>cleanupOldLogs\<close>, \<open>readDir\<close> is the answer of
  \<^verbatim>\<open>os.ReadDir\<close> (\<open>None\<close> when it fails) and \<open>removeFails\<close> tells for which paths
  \<^verbatim>\<open>os.Remove\<close> returns an error. The result lists the paths \<^verbatim>\<open>os.Remove\<close> was called with,
  the paths it removed, and the messages printed.
\<close>

definition currentLogFile :: "Server \<Rightarrow> int \<Rightarrow> string" where
  "currentLogFile s now =
     (let filename = Format (location s) now @ ''.log''
      in filepath_Join [logDir s, filename])"

text \<open>
  \<open>logRequest\<close> opens the current log file for appending and encodes the entry as one
  line. The log directory is represented by the lines of each file and by what is printed
  to the standard logger; \<open>openFails\<close> tells for which paths \<^verbatim>\<open>os.OpenFile\<close> returns an
  error, \<open>encode\<close> is the JSON encoder writing to the file, \<open>None\<close> when it returns an
  error.
\<close>

record logFiles =
  files :: "string \<Rightarrow> string list"
  printed :: "string list"

definition logRequest ::
  "Server \<Rightarrow> int \<Rightarrow> (string \<Rightarrow> bool) \<Rightarrow> ('d LogEntry \<Rightarrow> string option) \<Rightarrow> 'd LogEntry
     \<Rightarrow> logFiles \<Rightarrow> logFiles" where
  "logRequest s now openFails encode entry fs =
     (let logFile = currentLogFile s now in
      if openFails logFile then
        fs\<lparr>printed := printed fs @ [''Failed to open log file '' @ logFile]\<rparr>
      else
        case encode entry of
          None \<Rightarrow> fs\<lparr>printed := printed fs @ [''Failed to encode log entry'']\<rparr>
        | Some line \<Rightarrow> fs\<lparr>files := (files fs)(logFile := files fs logFile @ [line])\<rparr>)"

record DirEntry =
  Name :: string
  IsDir :: bool

record sweep =
  removeCalls :: "string list"
  removed :: "string list"
  messages :: "string list"

fun cleanupLoop :: "Server \<Rightarrow> (string \<Rightarrow> bool) \<Rightarrow> int \<Rightarrow> DirEntry list \<Rightarrow> sweep \<Rightarrow> sweep" where
  "cleanupLoop s removeFails cutoff [] st = st"
| "cleanupLoop s removeFails cutoff (entry # entries) st =
     (if IsDir entry then cleanupLoop s removeFails cutoff entries st
      else if \<not> strings_HasSuffix (Name entry) ''.log'' then
        cleanupLoop s removeFails cutoff entries st
      else
        case ParseInLocation (Name entry) (location s) of
          None \<Rightarrow> cleanupLoop s removeFails cutoff entries st
        | Some t \<Rightarrow>
            if t < cutoff then
              (if removeFails (filepath_Join [logDir s, Name entry]) then
                 cleanupLoop s removeFails cutoff entries
                   (st\<lparr>removeCalls := removeCalls st @ [filepath_Join [logDir s, Name entry]],
                       messages := messages st
                         @ [''Failed to remove old log '' @ filepath_Join [logDir s, Name entry]]\<rparr>)
               else
                 cleanupLoop s removeFails cutoff entries
                   (st\<lparr>removeCalls := removeCalls st @ [filepath_Join [logDir s, Name entry]],
                       removed := removed st @ [filepath_Join [logDir s, Name entry]],
                       messages := messages st @ [''Cleaned up old log: '' @ Name entry]\<rparr>))
            else cleanupLoop s removeFails cutoff entries st)"

definition cleanupOldLogs ::
  "Server \<Rightarrow> DirEntry list option \<Rightarrow> int \<Rightarrow> (string \<Rightarrow> bool) \<Rightarrow> sweep" where
  "cleanupOldLogs s readDir now removeFails =
     (case readDir of
        None \<Rightarrow>
          \<lparr>removeCalls = [], removed = [],
           messages = [''Failed to read log directory for cleanup'']\<rparr>
      | Some entries \<Rightarrow>
          let cutoff = now + sint (- (word_of_int (retentionHours s) :: 64 word) * Hour)
          in cleanupLoop s removeFails cutoff entries
               \<lparr>removeCalls = [], removed = [], messages = []\<rparr>)"

text \<open>
  For stating what the sweep removes: an entry is expired at a cutoff when it is not a
  directory, its name parses as a bucket name in the server's location and the parsed
  time is strictly before the cutoff. \<open>offsetsWithin\<close> bounds the offsets of a location.
\<close>

definition expired :: "Server \<Rightarrow> int \<Rightarrow> DirEntry \<Rightarrow> bool" where
  "expired s cutoff entry =
     (\<not> IsDir entry \<and>
      (case ParseInLocation (Name entry) (location s) of None \<Rightarrow> False | Some t \<Rightarrow> t < cutoff))"

definition offsetsWithin :: "location \<Rightarrow> int \<Rightarrow> int \<Rightarrow> bool" where
  "offsetsWithin loc lo hi = (\<forall>sec. lo \<le> fst (loc sec) \<and> fst (loc sec) \<le> hi)"

section \<open>Properties of the string functions\<close>

lemma strings_HasPrefix_iff: "strings_HasPrefix s pre \<longleftrightarrow> prefix pre s"
proof
  assume "strings_HasPrefix s pre"
  then have "take (length pre) s = pre"
    by (simp add: strings_HasPrefix_def)
  then show "prefix pre s"
    using take_is_prefix [of "length pre" s] by simp
next
  assume "prefix pre s"
  then obtain t where "s = pre @ t"
    by (auto simp: prefix_def)
  then show "strings_HasPrefix s pre"
    by (simp add: strings_HasPrefix_def)
qed

lemma strings_Contains_single: "strings_Contains s [c] \<longleftrightarrow> c \<in> set s"
proof (induction s)
  case Nil
  show ?case by simp
next
  case (Cons a s)
  have "strings_HasPrefix (a # s) [c] \<longleftrightarrow> a = c"
    by (auto simp: strings_HasPrefix_iff)
  with Cons show ?case by auto
qed

lemma strings_Contains_iff: "strings_Contains s sub \<longleftrightarrow> (\<exists>xs ys. s = xs @ sub @ ys)"
proof (induction s)
  case Nil
  show ?case by auto
next
  case (Cons c cs)
  show ?case
  proof
    assume "strings_Contains (c # cs) sub"
    then consider "prefix sub (c # cs)" | "strings_Contains cs sub"
      by (auto simp: strings_HasPrefix_iff)
    then show "\<exists>xs ys. c # cs = xs @ sub @ ys"
    proof cases
      case 1
      then obtain ys where "c # cs = sub @ ys" by (auto simp: prefix_def)
      then have "c # cs = [] @ sub @ ys" by simp
      then show ?thesis by blast
    next
      case 2
      with Cons obtain xs ys where "cs = xs @ sub @ ys" by blast
      then have "c # cs = (c # xs) @ sub @ ys" by simp
      then show ?thesis by blast
    qed
  next
    assume "\<exists>xs ys. c # cs = xs @ sub @ ys"
    then obtain xs ys where eq: "c # cs = xs @ sub @ ys" by blast
    show "strings_Contains (c # cs) sub"
    proof (cases xs)
      case Nil
      with eq have "prefix sub (c # cs)" by (simp add: prefix_def)
      then show ?thesis by (simp add: strings_HasPrefix_iff)
    next
      case (Cons x xs')
      with eq have "cs = xs' @ sub @ ys" by simp
      with Cons.IH show ?thesis by auto
    qed
  qed
qed

section \<open>Properties of \<^verbatim>\<open>Clean\<close>\<close>

lemma takeWhile_notSep_all: "CHR ''/'' \<notin> set e \<Longrightarrow> takeWhile notSep e = e"
  by (induction e) (auto simp: notSep_def IsPathSeparator_def)

lemma dropWhile_notSep_all: "CHR ''/'' \<notin> set e \<Longrightarrow> dropWhile notSep e = []"
  by (induction e) (auto simp: notSep_def IsPathSeparator_def)

lemma takeWhile_notSep_append: "takeWhile notSep (xs @ CHR ''/'' # ys) = takeWhile notSep xs"
  by (induction xs) (auto simp: notSep_def IsPathSeparator_def)

lemma dropWhile_notSep_append:
  "dropWhile notSep (xs @ CHR ''/'' # ys) = dropWhile notSep xs @ CHR ''/'' # ys"
  by (induction xs) (auto simp: notSep_def IsPathSeparator_def)

lemma atEndOrSep_append: "atEndOrSep (xs @ CHR ''/'' # ys) = atEndOrSep xs"
  by (cases xs) (auto simp: atEndOrSep_def IsPathSeparator_def)

lemma cleanLoop_sep:
  "IsPathSeparator c \<Longrightarrow> cleanLoop rooted (c # rest) out dotdot = cleanLoop rooted rest out dotdot"
  by (simp add: cleanLoop.simps(2))

lemma cleanLoop_dot:
  "\<not> IsPathSeparator c \<Longrightarrow> dotElem c rest \<Longrightarrow>
   cleanLoop rooted (c # rest) out dotdot = cleanLoop rooted rest out dotdot"
  by (simp add: cleanLoop.simps(2))

lemma cleanLoop_dotdot_back:
  "\<not> IsPathSeparator c \<Longrightarrow> \<not> dotElem c rest \<Longrightarrow>
   dotdotElem c rest \<Longrightarrow> dotdot < length out \<Longrightarrow>
   cleanLoop rooted (c # rest) out dotdot
     = cleanLoop rooted (tl rest) (take (backtrack out (length out - 1) dotdot) out) dotdot"
  by (simp add: cleanLoop.simps(2))

lemma cleanLoop_dotdot_keep:
  "\<not> IsPathSeparator c \<Longrightarrow> \<not> dotElem c rest \<Longrightarrow>
   dotdotElem c rest \<Longrightarrow> \<not> dotdot < length out \<Longrightarrow>
   \<not> rooted \<Longrightarrow>
   cleanLoop rooted (c # rest) out dotdot
     = cleanLoop rooted (tl rest) ((if 0 < length out then out @ ''/'' else out) @ ''..'')
         (length ((if 0 < length out then out @ ''/'' else out) @ ''..''))"
  by (simp add: cleanLoop.simps(2))

lemma cleanLoop_dotdot_drop:
  "\<not> IsPathSeparator c \<Longrightarrow> \<not> dotElem c rest \<Longrightarrow>
   dotdotElem c rest \<Longrightarrow> \<not> dotdot < length out \<Longrightarrow>
   \<not> \<not> rooted \<Longrightarrow>
   cleanLoop rooted (c # rest) out dotdot = cleanLoop rooted (tl rest) out dotdot"
  by (simp add: cleanLoop.simps(2))

lemma cleanLoop_elem:
  "\<not> IsPathSeparator c \<Longrightarrow> \<not> dotElem c rest \<Longrightarrow>
   \<not> dotdotElem c rest \<Longrightarrow>
   cleanLoop rooted (c # rest) out dotdot
     = cleanLoop rooted (dropWhile notSep rest)
         ((if (rooted \<and> length out \<noteq> 1) \<or> (\<not> rooted \<and> length out \<noteq> 0) then out @ ''/'' else out)
            @ c # takeWhile notSep rest)
         dotdot"
  by (simp add: cleanLoop.simps(2))

lemma cleanLoop_goodElem:
  assumes "goodElem e"
  shows "cleanLoop rooted e out dotdot = appendElem rooted out e"
proof -
  from assms obtain c rest where e: "e = c # rest"
    by (cases e) (auto simp: goodElem_def)
  from assms e have c: "\<not> IsPathSeparator c" and rest: "CHR ''/'' \<notin> set rest"
    by (auto simp: goodElem_def IsPathSeparator_def)
  have dot: "\<not> dotElem c rest"
    using assms e rest
    by (cases rest) (auto simp: goodElem_def atEndOrSep_def IsPathSeparator_def dotElem_def)
  have dotdot: "\<not> dotdotElem c rest"
  proof (cases rest)
    case Nil
    with dot show ?thesis by (simp add: atEndOrSep_def dotElem_def dotdotElem_def)
  next
    case (Cons d rest2)
    with assms e rest show ?thesis
      by (cases rest2) (auto simp: goodElem_def atEndOrSep_def IsPathSeparator_def dotdotElem_def)
  qed
  show ?thesis
    unfolding e cleanLoop_elem [OF c dot dotdot]
    by (simp add: takeWhile_notSep_all [OF rest] dropWhile_notSep_all [OF rest]
          appendElem_def cleanLoop.simps(1))
qed

lemma cleanLoop_append_elem:
  assumes "goodElem e"
  shows "cleanLoop rooted (s @ CHR ''/'' # e) out dotdot
       = appendElem rooted (cleanLoop rooted s out dotdot) e"
proof (induction rooted s out dotdot rule: cleanLoop.induct)
  case (1 rooted out dotdot)
  have "cleanLoop rooted (CHR ''/'' # e) out dotdot = cleanLoop rooted e out dotdot"
    by (rule cleanLoop_sep) (simp add: IsPathSeparator_def)
  then show ?case
    by (simp add: cleanLoop_goodElem [OF assms] cleanLoop.simps(1))
next
  case (2 rooted c rest out dotdot)
  let ?t = "CHR ''/'' # e"
  have L: "(c # rest) @ ?t = c # (rest @ ?t)"
    by simp
  have dot_iff: "dotElem c (rest @ ?t) \<longleftrightarrow> dotElem c rest"
    by (simp add: atEndOrSep_append dotElem_def)
  have dd_iff: "dotdotElem c (rest @ ?t) \<longleftrightarrow> dotdotElem c rest"
    if "\<not> dotElem c rest"
  proof (cases rest)
    case Nil
    with that show ?thesis by (simp add: atEndOrSep_def dotElem_def dotdotElem_def)
  next
    case (Cons d rest2)
    then show ?thesis by (simp add: atEndOrSep_append dotdotElem_def)
  qed
  have tl_eq: "tl (rest @ ?t) = tl rest @ ?t"
    if "dotdotElem c rest" "\<not> dotElem c rest"
    using that by (cases rest) (simp_all add: atEndOrSep_def dotElem_def dotdotElem_def)
  consider (sep) "IsPathSeparator c"
    | (dot) "\<not> IsPathSeparator c" "dotElem c rest"
    | (dotdot) "\<not> IsPathSeparator c" "\<not> dotElem c rest"
        "dotdotElem c rest"
    | (elem) "\<not> IsPathSeparator c" "\<not> dotElem c rest"
        "\<not> dotdotElem c rest"
    by blast
  then show ?case
  proof cases
    case sep
    show ?thesis
      unfolding L cleanLoop_sep [OF sep] by (rule "2.IH"(1) [OF sep])
  next
    case dot
    from dot(2) have dot': "dotElem c (rest @ ?t)"
      using dot_iff by blast
    show ?thesis
      unfolding L cleanLoop_dot [OF dot(1) dot'] cleanLoop_dot [OF dot]
      by (rule "2.IH"(2) [OF dot])
  next
    case dotdot
    from dotdot(2) have nd': "\<not> dotElem c (rest @ ?t)"
      using dot_iff by blast
    from dotdot(3) have dd': "dotdotElem c (rest @ ?t)"
      using dd_iff [OF dotdot(2)] by blast
    note tl = tl_eq [OF dotdot(3,2)]
    show ?thesis
    proof (cases "dotdot < length out")
      case True
      show ?thesis
        unfolding L cleanLoop_dotdot_back [OF dotdot(1) nd' dd' True]
          cleanLoop_dotdot_back [OF dotdot True] tl
        by (rule "2.IH"(3) [OF dotdot True])
    next
      case False
      show ?thesis
      proof (cases rooted)
        case rooted: True
        then have nr: "\<not> \<not> rooted" by simp
        show ?thesis
          unfolding L cleanLoop_dotdot_drop [OF dotdot(1) nd' dd' False nr]
            cleanLoop_dotdot_drop [OF dotdot False nr] tl
          by (rule "2.IH"(5) [OF dotdot False nr])
      next
        case unrooted: False
        show ?thesis
          unfolding L cleanLoop_dotdot_keep [OF dotdot(1) nd' dd' False unrooted]
            cleanLoop_dotdot_keep [OF dotdot False unrooted] tl
          by (rule "2.IH"(4) [OF dotdot False unrooted])
      qed
    qed
  next
    case elem
    from elem(2) have nd': "\<not> dotElem c (rest @ ?t)"
      using dot_iff by blast
    from elem(3) have ndd': "\<not> dotdotElem c (rest @ ?t)"
      using dd_iff [OF elem(2)] by blast
    show ?thesis
      unfolding L cleanLoop_elem [OF elem(1) nd' ndd'] cleanLoop_elem [OF elem]
        takeWhile_notSep_append dropWhile_notSep_append
      by (rule "2.IH"(6) [OF elem])
  qed
qed

lemma backtrack_step:
  assumes "dotdot < w" "\<not> IsPathSeparator (buf ! w)"
  shows "backtrack buf w dotdot = backtrack buf (w - 1) dotdot"
  using assms by (subst backtrack.simps) simp

lemma backtrack_stop:
  assumes "\<not> (dotdot < w \<and> \<not> IsPathSeparator (buf ! w))"
  shows "backtrack buf w dotdot = w"
  using assms by (subst backtrack.simps) auto

lemma backtrack_ge: "dotdot \<le> w \<Longrightarrow> dotdot \<le> backtrack buf w dotdot"
proof (induction buf w dotdot rule: backtrack.induct)
  case (1 buf w dotdot)
  show ?case
  proof (cases "dotdot < w \<and> \<not> IsPathSeparator (buf ! w)")
    case True
    then have lt: "dotdot < w" and ns: "\<not> IsPathSeparator (buf ! w)"
      by simp_all
    from lt have "dotdot \<le> w - 1" by simp
    with "1.IH" True have "dotdot \<le> backtrack buf (w - 1) dotdot" by blast
    then show ?thesis by (simp only: backtrack_step [OF lt ns])
  next
    case False
    with "1.prems" show ?thesis by (simp only: backtrack_stop [OF False])
  qed
qed

lemma cleanLoop_rooted:
  "rootedBuf out \<Longrightarrow> 1 \<le> dotdot \<Longrightarrow> rootedBuf (cleanLoop True path out dotdot)"
proof (induction True path out dotdot rule: cleanLoop.induct)
  case (1 out dotdot)
  then show ?case by (simp add: cleanLoop.simps(1))
next
  case (2 c rest out dotdot)
  consider (sep) "IsPathSeparator c"
    | (dot) "\<not> IsPathSeparator c" "dotElem c rest"
    | (dotdot) "\<not> IsPathSeparator c" "\<not> dotElem c rest" "dotdotElem c rest"
    | (elem) "\<not> IsPathSeparator c" "\<not> dotElem c rest" "\<not> dotdotElem c rest"
    by blast
  then show ?case
  proof cases
    case sep
    show ?thesis
      unfolding cleanLoop_sep [OF sep] by (rule "2.hyps"(1) [OF sep "2.prems"])
  next
    case dot
    show ?thesis
      unfolding cleanLoop_dot [OF dot] by (rule "2.hyps"(2) [OF dot "2.prems"])
  next
    case dotdot
    show ?thesis
    proof (cases "dotdot < length out")
      case True
      let ?w = "backtrack out (length out - 1) dotdot"
      from True have "dotdot \<le> ?w" by (intro backtrack_ge) simp
      with "2.prems" have "rootedBuf (take ?w out)"
        by (cases ?w) (auto simp: rootedBuf_def)
      then show ?thesis
        unfolding cleanLoop_dotdot_back [OF dotdot True]
        by (rule "2.hyps"(3) [OF dotdot True _ "2.prems"(2)])
    next
      case False
      have nr: "\<not> \<not> True" by simp
      show ?thesis
        unfolding cleanLoop_dotdot_drop [OF dotdot False nr]
        by (rule "2.hyps"(5) [OF dotdot False nr "2.prems"])
    qed
  next
    case elem
    from "2.prems"(1) have "rootedBuf ((if (True \<and> length out \<noteq> 1) \<or> (\<not> True \<and> length out \<noteq> 0) then out @ ''/'' else out)
            @ c # takeWhile notSep rest)"
      by (auto simp: rootedBuf_def)
    then show ?thesis
      unfolding cleanLoop_elem [OF elem]
      by (rule "2.hyps"(6) [OF elem _ "2.prems"(2)])
  qed
qed

lemma rootedBuf_length1: "rootedBuf out \<Longrightarrow> length out = 1 \<longleftrightarrow> out = ''/''"
  by (cases out) (auto simp: rootedBuf_def)

text \<open>Clean of an absolute path, and of a path with one more element.\<close>

lemma filepath_Clean_abs:
  assumes "filepath_IsAbs s"
  shows "filepath_Clean s = cleanLoop True (tl s) ''/'' 1" and "rootedBuf (filepath_Clean s)"
proof -
  from assms obtain t where s: "s = CHR ''/'' # t"
    by (cases s) (auto simp: filepath_IsAbs_def strings_HasPrefix_def)
  have r: "rootedBuf (cleanLoop True t ''/'' 1)"
    by (rule cleanLoop_rooted) (simp_all add: rootedBuf_def)
  then have "cleanLoop True t ''/'' 1 \<noteq> []"
    by (simp add: rootedBuf_def)
  then show "filepath_Clean s = cleanLoop True (tl s) ''/'' 1"
    by (simp add: filepath_Clean_def s IsPathSeparator_def)
  with r s show "rootedBuf (filepath_Clean s)" by simp
qed

lemma appendElem_nonempty: "goodElem e \<Longrightarrow> appendElem rooted out e \<noteq> []"
  by (simp add: appendElem_def goodElem_def)

lemma filepath_Clean_append_abs:
  assumes "filepath_IsAbs s" "goodElem e"
  shows "filepath_Clean (s @ CHR ''/'' # e)
       = (if filepath_Clean s = ''/'' then ''/'' @ e else filepath_Clean s @ ''/'' @ e)"
proof -
  from assms obtain t where s: "s = CHR ''/'' # t"
    by (cases s) (auto simp: filepath_IsAbs_def strings_HasPrefix_def)
  let ?r = "cleanLoop True t ''/'' 1"
  have cs: "filepath_Clean s = ?r" and r: "rootedBuf ?r"
    using filepath_Clean_abs [OF assms(1)] s by simp_all
  have "filepath_Clean (s @ CHR ''/'' # e) = appendElem True ?r e"
    using appendElem_nonempty [OF assms(2), of True ?r]
    by (simp add: filepath_Clean_def s IsPathSeparator_def cleanLoop_append_elem [OF assms(2)])
  also have "\<dots> = (if ?r = ''/'' then ''/'' @ e else ?r @ ''/'' @ e)"
    using rootedBuf_length1 [OF r] by (auto simp: appendElem_def)
  finally show ?thesis by (simp only: cs)
qed

lemma filepath_Clean_goodElem: "goodElem e \<Longrightarrow> filepath_Clean e = e"
  by (cases e) (auto simp: filepath_Clean_def cleanLoop_goodElem appendElem_def goodElem_def IsPathSeparator_def)

lemma filepath_Clean_root_elem: "goodElem e \<Longrightarrow> filepath_Clean (CHR ''/'' # e) = CHR ''/'' # e"
  by (simp add: filepath_Clean_def cleanLoop_goodElem appendElem_def goodElem_def IsPathSeparator_def)

lemma filepath_Clean_append_shape:
  assumes "s \<noteq> []" "goodElem e"
  shows "\<exists>q. filepath_Clean (s @ CHR ''/'' # e) = q @ e \<and> (q = [] \<or> last q = CHR ''/'')"
proof (cases "filepath_IsAbs s")
  case True
  show ?thesis
    unfolding filepath_Clean_append_abs [OF True assms(2)]
    by (cases "filepath_Clean s = ''/''") auto
next
  case False
  with assms(1) have ns: "\<not> IsPathSeparator (hd s)"
    by (cases s) (auto simp: filepath_IsAbs_def strings_HasPrefix_def IsPathSeparator_def)
  let ?r = "cleanLoop False s [] 0"
  have "filepath_Clean (s @ CHR ''/'' # e) = appendElem False ?r e"
    using appendElem_nonempty [OF assms(2), of False ?r] assms(1) ns
    by (simp add: filepath_Clean_def cleanLoop_append_elem [OF assms(2)])
  then show ?thesis
    by (cases "?r = []") (auto simp: appendElem_def)
qed

lemma stripTrailingSeps_none:
  assumes "path \<noteq> []" "\<not> IsPathSeparator (last path)"
  shows "stripTrailingSeps path (length path) = length path"
proof -
  from assms(1) obtain n where n: "length path = Suc n"
    by (cases path) auto
  with assms(1) have "path ! n = last path"
    by (simp add: last_conv_nth)
  with assms(2) n show ?thesis by simp
qed

lemma lastElemStart_elem:
  assumes "q = [] \<or> last q = CHR ''/''" "CHR ''/'' \<notin> set e" "k \<le> length e"
  shows "lastElemStart (q @ e) (length q + k) = length q"
  using assms(3)
proof (induction k)
  case 0
  show ?case
  proof (cases q rule: rev_cases)
    case Nil
    then show ?thesis by simp
  next
    case (snoc q' x)
    with assms(1) have "x = CHR ''/''" by simp
    with snoc show ?thesis by (simp add: IsPathSeparator_def nth_append)
  qed
next
  case (Suc k)
  then have "k < length e" by simp
  then have "(q @ e) ! (length q + k) = e ! k" and "e ! k \<in> set e"
    by (simp_all add: nth_append)
  with assms(2) have "\<not> IsPathSeparator ((q @ e) ! (length q + k))"
    by (auto simp: IsPathSeparator_def)
  with Suc show ?case by simp
qed

lemma filepath_Base_elem:
  assumes "q = [] \<or> last q = CHR ''/''" "goodElem e"
  shows "filepath_Base (q @ e) = e"
proof -
  from assms(2) have ne: "e \<noteq> []" and ns: "CHR ''/'' \<notin> set e"
    by (simp_all add: goodElem_def)
  have "last e \<in> set e"
    using ne by (rule last_in_set)
  with ns have "last e \<noteq> CHR ''/''"
    by auto
  with ne have "\<not> IsPathSeparator (last (q @ e))"
    by (simp add: IsPathSeparator_def)
  with ne have strip: "stripTrailingSeps (q @ e) (length (q @ e)) = length (q @ e)"
    by (intro stripTrailingSeps_none) simp_all
  have start: "lastElemStart (q @ e) (length (q @ e)) = length q"
    using lastElemStart_elem [OF assms(1) ns, of "length e"] by simp
  have keep: "take (stripTrailingSeps (q @ e) (length (q @ e))) (q @ e) = q @ e"
    by (simp only: strip take_all order_refl)
  have "drop (lastElemStart (q @ e) (length (q @ e))) (q @ e) = e"
    by (simp only: start drop_append diff_self_eq_0 drop_all order_refl drop_0 append_Nil)
  with ne show ?thesis
    unfolding filepath_Base_def Let_def keep by simp
qed

section \<open>The response recorder\<close>

lemma call_wroteHeader:
  assumes "wroteHeader rr"
  shows "wroteHeader (call c rr) \<and> statusCode (call c rr) = statusCode rr
       \<and> forwardedHeaders (call c rr) = forwardedHeaders rr"
  using assms by (cases c) (simp_all add: WriteHeader_def Write_def forwardedHeaders_def)

lemma calls_wroteHeader:
  assumes "wroteHeader rr"
  shows "wroteHeader (calls cs rr) \<and> statusCode (calls cs rr) = statusCode rr
       \<and> forwardedHeaders (calls cs rr) = forwardedHeaders rr"
  using assms
proof (induction cs arbitrary: rr)
  case Nil
  then show ?case by simp
next
  case (Cons c cs)
  from call_wroteHeader [OF Cons.prems, of c] Cons.IH [of "call c rr"]
  show ?case by simp
qed

lemma call_bytesWritten:
  "bytesWritten (call c rr) = bytesWritten rr + word_of_int (reported [c])"
  by (cases c) (simp_all add: WriteHeader_def Write_def Let_def)

lemma calls_bytesWritten:
  "bytesWritten (calls cs rr) = bytesWritten rr + word_of_int (reported cs)"
proof (induction cs arbitrary: rr)
  case Nil
  show ?case by simp
next
  case (Cons c cs)
  have "reported (c # cs) = reported [c] + reported cs"
    by (cases c) simp_all
  with Cons [of "call c rr"] call_bytesWritten [of c rr] show ?case
    by simp
qed

text \<open>
  C9. On a recorder that has not written a header, the recorded status after a
  \<^verbatim>\<open>WriteHeader\<close> call is that call's argument whatever calls follow, and of all
  \<^verbatim>\<open>WriteHeader\<close> calls only this one reaches the embedded writer; once a header is written,
  a \<^verbatim>\<open>WriteHeader\<close> call changes neither the recorded status nor what the embedded writer
  received. The recorded byte count grows by the sum of the counts the embedded writer
  reported for the \<open>Write\<close> calls, in 64-bit arithmetic; starting from zero it is
  exactly that sum as long as the sum fits 64 bits.
\<close>

theorem recorder_first_status_and_bytes:
  "(\<not> wroteHeader rr \<longrightarrow>
      statusCode (calls (CallWriteHeader code # cs) rr) = code
    \<and> forwardedHeaders (calls (CallWriteHeader code # cs) rr)
        = forwardedHeaders rr @ [WriterWriteHeader code])
   \<and> (wroteHeader rr \<longrightarrow>
        statusCode (calls (CallWriteHeader code # cs) rr) = statusCode rr
      \<and> forwardedHeaders (calls (CallWriteHeader code # cs) rr) = forwardedHeaders rr)
   \<and> bytesWritten (calls cs rr) = bytesWritten rr + word_of_int (reported cs)
   \<and> (bytesWritten rr = 0 \<and> - (2 ^ 63) \<le> reported cs \<and> reported cs < 2 ^ 63 \<longrightarrow>
        sint (bytesWritten (calls cs rr)) = reported cs)"
proof -
  have first: "statusCode (calls (CallWriteHeader code # cs) rr) = code
      \<and> forwardedHeaders (calls (CallWriteHeader code # cs) rr)
          = forwardedHeaders rr @ [WriterWriteHeader code]" if "\<not> wroteHeader rr"
  proof -
    let ?rr = "WriteHeader code rr"
    from that have "wroteHeader ?rr" and "statusCode ?rr = code"
      and "forwardedHeaders ?rr = forwardedHeaders rr @ [WriterWriteHeader code]"
      by (simp_all add: WriteHeader_def forwardedHeaders_def)
    with calls_wroteHeader [of ?rr cs] show ?thesis by simp
  qed
  have later: "statusCode (calls (CallWriteHeader code # cs) rr) = statusCode rr
      \<and> forwardedHeaders (calls (CallWriteHeader code # cs) rr) = forwardedHeaders rr"
    if "wroteHeader rr"
    using calls_wroteHeader [OF that, of "CallWriteHeader code # cs"] by simp
  have bytes: "bytesWritten (calls cs rr) = bytesWritten rr + word_of_int (reported cs)"
    by (rule calls_bytesWritten)
  have exact: "sint (bytesWritten (calls cs rr)) = reported cs"
    if "bytesWritten rr = 0" "- (2 ^ 63) \<le> reported cs" "reported cs < 2 ^ 63"
  proof -
    from that(1) bytes have "bytesWritten (calls cs rr) = (word_of_int (reported cs) :: 64 word)"
      by simp
    moreover have "sint (word_of_int (reported cs) :: 64 word) = reported cs"
      using that(2,3) by (simp add: sint_sbintrunc' signed_take_bit_int_eq_self)
    ultimately show ?thesis by simp
  qed
  from first later bytes exact show ?thesis by blast
qed


theorem recorder_first_status_and_bytes_witness:
  "statusCode (calls [CallWriteHeader 404, CallWrite ''ab'' 2, CallWriteHeader 200, CallWrite ''c'' 1]
      \<lparr>ResponseWriter = [], statusCode = 200, bytesWritten = 0, wroteHeader = False\<rparr>) = 404
   \<and> forwardedHeaders (calls [CallWriteHeader 404, CallWrite ''ab'' 2, CallWriteHeader 200, CallWrite ''c'' 1]
      \<lparr>ResponseWriter = [], statusCode = 200, bytesWritten = 0, wroteHeader = False\<rparr>)
       = [WriterWriteHeader 404]
   \<and> sint (bytesWritten (calls [CallWrite ''ab'' 2, CallWriteHeader 200, CallWrite ''c'' 1]
      \<lparr>ResponseWriter = [], statusCode = 200, bytesWritten = 0, wroteHeader = False\<rparr>)) = 3"
  using recorder_first_status_and_bytes
    [of "\<lparr>ResponseWriter = [], statusCode = 200, bytesWritten = 0, wroteHeader = False\<rparr>"
        404 "[CallWrite ''ab'' 2, CallWriteHeader 200, CallWrite ''c'' 1]"]
  by (simp add: forwardedHeaders_def)

section \<open>Path validation\<close>

text \<open>What the first three checks of sanitizePath leave.\<close>

lemma sanitizePath_accepts_goodElem:
  assumes "sanitizePath s wd p = Inr resolved"
  shows "goodElem (strings_TrimPrefix p ''/'')"
    and "\<not> strings_Contains (strings_TrimPrefix p ''/'') ''..''"
proof -
  let ?r = "strings_TrimPrefix p ''/''"
  from assms have a: "?r \<noteq> []" "?r \<noteq> ''.''"
    and b: "\<not> strings_Contains ?r ''/''" and c: "\<not> strings_Contains ?r ''..''"
    by (auto simp: sanitizePath_def Let_def split: if_splits)
  from c have "?r \<noteq> ''..''"
    by (auto simp: strings_HasPrefix_def)
  with a b show "goodElem ?r"
    by (simp add: goodElem_def strings_Contains_single)
  from c show "\<not> strings_Contains ?r ''..''" .
qed

lemma filepath_Join_root_elem:
  assumes "goodElem e"
  shows "filepath_Join [root, e] = (if root = [] then e else filepath_Clean (root @ CHR ''/'' # e))"
  using assms by (auto simp: filepath_Clean_goodElem goodElem_def)

lemma sanitizePath_accepts:
  assumes "sanitizePath s wd p = Inr resolved"
  shows "resolved = filepath_Join [wwwRoot s, strings_TrimPrefix p ''/'']"
    and "\<exists>absRoot absPath. filepath_Abs wd (wwwRoot s) = Some absRoot
           \<and> filepath_Abs wd resolved = Some absPath
           \<and> (strings_HasPrefix absPath (absRoot @ ''/'') \<or> absPath = absRoot)"
proof -
  let ?r = "strings_TrimPrefix p ''/''"
  have clean: "filepath_Clean ?r = ?r"
    by (rule filepath_Clean_goodElem) (rule sanitizePath_accepts_goodElem [OF assms])
  from assms show r: "resolved = filepath_Join [wwwRoot s, ?r]"
    by (simp add: sanitizePath_def Let_def clean split: if_splits option.splits)
  from assms show "\<exists>absRoot absPath. filepath_Abs wd (wwwRoot s) = Some absRoot
           \<and> filepath_Abs wd resolved = Some absPath
           \<and> (strings_HasPrefix absPath (absRoot @ ''/'') \<or> absPath = absRoot)"
    unfolding r
    by (simp add: sanitizePath_def Let_def clean split: if_splits option.splits)
qed

text \<open>
  C1. Whenever \<open>sanitizePath\<close> accepts a candidate, the canonical absolute form of the
  path it returns equals the canonical absolute served root or has that root followed by
  a separator as a literal prefix: nothing accepted resolves outside the served root. The
  served root is an absolute path in the specification's data model; for such a root the
  returned string is itself rooted, it has the canonical root followed by a separator as
  a literal prefix.
\<close>

theorem sanitizePath_within_root:
  assumes "sanitizePath s wd p = Inr resolved"
  shows "\<exists>absRoot absPath.
           filepath_Abs wd (wwwRoot s) = Some absRoot \<and> filepath_Abs wd resolved = Some absPath
         \<and> (absPath = absRoot \<or> strings_HasPrefix absPath (absRoot @ ''/''))
         \<and> (filepath_IsAbs (wwwRoot s) \<longrightarrow>
              resolved = absRoot \<or> strings_HasPrefix resolved (absRoot @ ''/''))"
proof -
  let ?r = "strings_TrimPrefix p ''/''"
  have good: "goodElem ?r"
    by (rule sanitizePath_accepts_goodElem [OF assms])
  note res = sanitizePath_accepts(1) [OF assms]
  from sanitizePath_accepts(2) [OF assms] obtain absRoot absPath where
    ar: "filepath_Abs wd (wwwRoot s) = Some absRoot" and ap: "filepath_Abs wd resolved = Some absPath"
    and chk: "strings_HasPrefix absPath (absRoot @ ''/'') \<or> absPath = absRoot"
    by blast
  have "resolved = absRoot \<or> strings_HasPrefix resolved (absRoot @ ''/'')" if abs: "filepath_IsAbs (wwwRoot s)"
  proof -
    from abs have ne: "wwwRoot s \<noteq> []"
      by (auto simp: filepath_IsAbs_def strings_HasPrefix_def)
    from abs ar have root: "absRoot = filepath_Clean (wwwRoot s)"
      by (simp add: filepath_Abs_def)
    have full: "resolved = (if absRoot = ''/'' then ''/'' @ ?r else absRoot @ ''/'' @ ?r)"
      unfolding res root filepath_Join_root_elem [OF good]
      using ne filepath_Clean_append_abs [OF abs good] by simp
    show ?thesis
    proof (cases "absRoot = ''/''")
      case True
      with full have r: "resolved = CHR ''/'' # ?r" by simp
      then have "filepath_IsAbs resolved"
        by (simp add: filepath_IsAbs_def strings_HasPrefix_def)
      with ap r have "absPath = CHR ''/'' # ?r"
        by (simp add: filepath_Abs_def filepath_Clean_root_elem [OF good])
      with chk True good have False
        by (cases ?r) (auto simp: strings_HasPrefix_def goodElem_def)
      then show ?thesis ..
    next
      case False
      with full have "resolved = (absRoot @ ''/'') @ ?r" by simp
      then have "strings_HasPrefix resolved (absRoot @ ''/'')"
        by (simp only: strings_HasPrefix_iff prefixI)
      then show ?thesis ..
    qed
  qed
  with ar ap chk show ?thesis by blast
qed

lemma sanitizePath_example:
  "sanitizePath (mainServer chicago2025) None ''/report.html'' = Inr ''/var/www/report.html''"
  by code_simp

theorem sanitizePath_within_root_witness:
  "sanitizePath (mainServer chicago2025) None ''/report.html'' = Inr ''/var/www/report.html''
   \<and> filepath_IsAbs (wwwRoot (mainServer chicago2025))
   \<and> (\<exists>absRoot. filepath_Abs None (wwwRoot (mainServer chicago2025)) = Some absRoot
        \<and> strings_HasPrefix ''/var/www/report.html'' (absRoot @ ''/''))"
proof -
  have abs: "filepath_IsAbs (wwwRoot (mainServer chicago2025))"
    by (simp add: filepath_IsAbs_def strings_HasPrefix_def mainServer_def)
  from sanitizePath_within_root [OF sanitizePath_example] abs
  obtain absRoot where "filepath_Abs None (wwwRoot (mainServer chicago2025)) = Some absRoot"
    and "''/var/www/report.html'' = absRoot \<or> strings_HasPrefix ''/var/www/report.html'' (absRoot @ ''/'')"
    by blast
  moreover have "filepath_Abs None (wwwRoot (mainServer chicago2025)) = Some ''/var/www''"
    by code_simp
  ultimately show ?thesis
    using sanitizePath_example abs by auto
qed

text \<open>
  C10. For an accepted candidate the \<^verbatim>\<open>Clean\<close> step changes nothing, the returned path is
  the served root joined with the candidate without its leading slash, and the base name
  of the returned path is that remainder, byte for byte.
\<close>

theorem sanitizePath_clean_identity:
  assumes "sanitizePath s wd p = Inr resolved"
  shows "filepath_Clean (strings_TrimPrefix p ''/'') = strings_TrimPrefix p ''/''
       \<and> resolved = filepath_Join [wwwRoot s, strings_TrimPrefix p ''/'']
       \<and> filepath_Base resolved = strings_TrimPrefix p ''/''"
proof -
  let ?r = "strings_TrimPrefix p ''/''"
  have good: "goodElem ?r"
    by (rule sanitizePath_accepts_goodElem [OF assms])
  then have clean: "filepath_Clean ?r = ?r"
    by (rule filepath_Clean_goodElem)
  note res = sanitizePath_accepts(1) [OF assms]
  have "\<exists>q. resolved = q @ ?r \<and> (q = [] \<or> last q = CHR ''/'')"
  proof (cases "wwwRoot s = []")
    case True
    then have "resolved = [] @ ?r"
      unfolding res filepath_Join_root_elem [OF good] by simp
    then show ?thesis by blast
  next
    case False
    then show ?thesis
      unfolding res filepath_Join_root_elem [OF good]
      using filepath_Clean_append_shape [OF False good] by simp
  qed
  then obtain q where "resolved = q @ ?r" and "q = [] \<or> last q = CHR ''/''"
    by blast
  then have "filepath_Base resolved = ?r"
    using filepath_Base_elem [OF _ good] by simp
  with clean res show ?thesis by simp
qed

theorem sanitizePath_clean_identity_witness:
  "sanitizePath (mainServer chicago2025) None ''/report.html'' = Inr ''/var/www/report.html''
   \<and> filepath_Clean ''report.html'' = ''report.html''
   \<and> filepath_Join [wwwRoot (mainServer chicago2025), ''report.html''] = ''/var/www/report.html''
   \<and> filepath_Base ''/var/www/report.html'' = ''report.html''"
proof -
  have "strings_TrimPrefix ''/report.html'' ''/'' = ''report.html''"
    by (simp add: strings_TrimPrefix_def strings_HasPrefix_def)
  with sanitizePath_clean_identity [OF sanitizePath_example] sanitizePath_example
  show ?thesis by (auto simp del: filepath_Join.simps)
qed

text \<open>
  C3. A candidate whose remainder, after the single leading slash is stripped, contains a
  slash or a backslash is rejected by \<open>sanitizePath\<close>, with the reason "subdirectories not
  allowed"; it is therefore never accepted.
\<close>

theorem sanitizePath_rejects_separators:
  assumes "CHR ''/'' \<in> set (strings_TrimPrefix p ''/'')
         \<or> CHR 0x5C \<in> set (strings_TrimPrefix p ''/'')"
  shows "sanitizePath s wd p = Inl Subdirectories"
proof -
  let ?r = "strings_TrimPrefix p ''/''"
  from assms have sep: "strings_Contains ?r ''/'' \<or> strings_Contains ?r [CHR 0x5C]"
    by (simp add: strings_Contains_single)
  from assms have "?r \<noteq> []" and "?r \<noteq> ''.''"
    by auto
  with sep show ?thesis
    by (simp add: sanitizePath_def Let_def)
qed

theorem sanitizePath_rejects_separators_witness:
  "CHR 0x5C \<in> set (strings_TrimPrefix (''/a'' @ CHR 0x5C # ''b.html'') ''/'')
   \<and> sanitizePath (mainServer chicago2025) None (''/a'' @ CHR 0x5C # ''b.html'') = Inl Subdirectories"
  using sanitizePath_rejects_separators
    [where p = "''/a'' @ CHR 0x5C # ''b.html''" and wd = None and s = "mainServer chicago2025"]
  by (simp add: strings_TrimPrefix_def strings_HasPrefix_def)

section \<open>The request handler\<close>

lemma http_Error_fresh:
  "http_Error w msg code \<lparr>ResponseWriter = [], statusCode = 200, bytesWritten = 0, wroteHeader = False\<rparr>
     = \<lparr>ResponseWriter = [HeaderDel ''Content-Length'',
          HeaderSet ''Content-Type'' ''text/plain; charset=utf-8'',
          HeaderSet ''X-Content-Type-Options'' ''nosniff'',
          WriterWriteHeader code, WriterWrite (msg @ [CHR 0x0A])],
        statusCode = code, bytesWritten = word_of_int (w (msg @ [CHR 0x0A])), wroteHeader = True\<rparr>"
  by (simp add: http_Error_def WriteHeader_def Write_def Let_def)

text \<open>
  C5. Two requests with an accepted method whose paths \<open>sanitizePath\<close> rejects, for
  whatever reasons, get the same response: status 403 with the body \<^verbatim>\<open>Forbidden\<close>, and
  the status logged is 403. The reason of the rejection appears nowhere in the response.
\<close>

theorem rejected_paths_same_response:
  assumes "reqMethod r1 = ''GET'' \<or> reqMethod r1 = ''HEAD''"
    and "reqMethod r2 = ''GET'' \<or> reqMethod r2 = ''HEAD''"
    and "sanitizePath s (getwd env1) (reqURLPath r1) = Inl e1"
    and "sanitizePath s (getwd env2) (reqURLPath r2) = Inl e2"
  shows "response (handleRequest s env1 r1) = response (handleRequest s env2 r2)
       \<and> response (handleRequest s env1 r1) = forbiddenResponse
       \<and> map Status (logged (handleRequest s env1 r1)) = [403]
       \<and> map Status (logged (handleRequest s env2 r2)) = [403]"
  using assms
  by (auto simp: handleRequest_def handleRequestWith_def handleBody_def http_Error_fresh
      forbiddenResponse_def)

lemma reject_dir: "sanitizePath (mainServer chicago2025) (Some ''/app'') ''/'' = Inl DirectoryAccess"
  by code_simp
lemma reject_sub: "sanitizePath (mainServer chicago2025) (Some ''/app'') ''/sub/dir/file.html'' = Inl Subdirectories"
  by code_simp
lemma reject_trav: "sanitizePath (mainServer chicago2025) (Some ''/app'') ''/a..b.html'' = Inl Traversal"
  by code_simp

theorem rejected_paths_same_response_witness:
  "sanitizePath (mainServer chicago2025) (Some ''/app'') ''/'' = Inl DirectoryAccess
   \<and> sanitizePath (mainServer chicago2025) (Some ''/app'') ''/sub/dir/file.html'' = Inl Subdirectories
   \<and> response (handleRequest (mainServer chicago2025) (exampleEnv (\<lambda>p. ErrNotExist))
        \<lparr>reqMethod = ''GET'', reqURLPath = ''/''\<rparr>)
     = response (handleRequest (mainServer chicago2025) (exampleEnv (\<lambda>p. ErrNotExist))
        \<lparr>reqMethod = ''HEAD'', reqURLPath = ''/sub/dir/file.html''\<rparr>)
   \<and> response (handleRequest (mainServer chicago2025) (exampleEnv (\<lambda>p. ErrNotExist))
        \<lparr>reqMethod = ''GET'', reqURLPath = ''/''\<rparr>) = forbiddenResponse"
proof -
  let ?env = "exampleEnv (\<lambda>p. ErrNotExist)"
  let ?r1 = "\<lparr>reqMethod = ''GET'', reqURLPath = ''/''\<rparr>"
  let ?r2 = "\<lparr>reqMethod = ''HEAD'', reqURLPath = ''/sub/dir/file.html''\<rparr>"
  have wd: "getwd ?env = Some ''/app''"
    by (simp add: exampleEnv_def)
  have "response (handleRequest (mainServer chicago2025) ?env ?r1)
          = response (handleRequest (mainServer chicago2025) ?env ?r2)
      \<and> response (handleRequest (mainServer chicago2025) ?env ?r1) = forbiddenResponse
      \<and> map Status (logged (handleRequest (mainServer chicago2025) ?env ?r1)) = [403]
      \<and> map Status (logged (handleRequest (mainServer chicago2025) ?env ?r2)) = [403]"
    by (rule rejected_paths_same_response [where ?e1.0 = DirectoryAccess and ?e2.0 = Subdirectories])
       (simp_all add: wd reject_dir reject_sub)
  with reject_dir reject_sub show ?thesis by blast
qed

lemma handleRequestWith_logged:
  "length (logged (handleRequestWith allowed blocked s env r)) = 1
   \<and> count_list (steps (handleRequestWith allowed blocked s env r)) Logged = 1
   \<and> last (steps (handleRequestWith allowed blocked s env r)) = Logged
   \<and> map Method (logged (handleRequestWith allowed blocked s env r)) = [reqMethod r]
   \<and> map Path (logged (handleRequestWith allowed blocked s env r)) = [reqURLPath r]"
  by (auto simp: handleRequestWith_def handleBody_def Let_def
      split: prod.splits sum.splits statResult.splits if_splits)

lemma accept_missing_log:
  "sanitizePath (mainServer chicago2025) (Some ''/app'') ''/missing.log'' = Inr ''/var/www/missing.log''"
  by code_simp

lemma accept_access_log:
  "sanitizePath (mainServer chicago2025) (Some ''/app'') ''/access.log'' = Inr ''/var/www/access.log''"
  by code_simp

lemma ext_missing_log: "lowerASCII (filepath_Ext ''/var/www/missing.log'') = ''.log''"
  by code_simp

lemma ext_access_log: "lowerASCII (filepath_Ext ''/var/www/access.log'') = ''.log''"
  by code_simp

text \<open>
  C2 (as amended). The handler performs its steps in the order Received, MethodChecked,
  PathValidated, Stat'd, ExtensionChecked, then the response and the log entry: the stat
  comes before the extension check. The extension check is reached exactly when the
  method is accepted, the path is accepted and the stat finds a file that is not a
  directory; in every other case the whole result (response, steps and log entry) is the
  same for any extension maps and any \<^verbatim>\<open>ToLower\<close>. Each branch is given with what the
  client receives and the status that is logged: 405 for another method, 403 for a
  rejected path, 404 \<^verbatim>\<open>Not Found\<close> after the stat for a file that does not exist, whatever
  its extension, 500 for another stat error, 403 for a directory, 403 for an extension
  that is blocked or not allowed, and the calls of \<^verbatim>\<open>http.ServeFile\<close> otherwise.
\<close>

theorem handler_step_order:
  "steps (handleRequestWith allowed blocked s env r) \<in> set
     [[Received, MethodChecked, Respond MethodNotAllowed, Logged],
      [Received, MethodChecked, PathValidated, Respond Forbidden, Logged],
      [Received, MethodChecked, PathValidated, Statd, Respond NotFound, Logged],
      [Received, MethodChecked, PathValidated, Statd, Respond InternalServerError, Logged],
      [Received, MethodChecked, PathValidated, Statd, Respond Forbidden, Logged],
      [Received, MethodChecked, PathValidated, Statd, ExtensionChecked, Respond Forbidden, Logged],
      [Received, MethodChecked, PathValidated, Statd, ExtensionChecked, Respond Serving, Logged]]
   \<and> (ExtensionChecked \<in> set (steps (handleRequestWith allowed blocked s env r)) \<longleftrightarrow>
        (reqMethod r = ''GET'' \<or> reqMethod r = ''HEAD'')
        \<and> (\<exists>cleanPath. sanitizePath s (getwd env) (reqURLPath r) = Inr cleanPath
              \<and> osStat env cleanPath = FileInfo False))
   \<and> (reqMethod r \<noteq> ''GET'' \<and> reqMethod r \<noteq> ''HEAD'' \<longrightarrow>
        steps (handleRequestWith allowed blocked s env r)
          = [Received, MethodChecked, Respond MethodNotAllowed, Logged]
        \<and> response (handleRequestWith allowed blocked s env r)
          = errorResponse ''Method Not Allowed'' 405
        \<and> map Status (logged (handleRequestWith allowed blocked s env r)) = [405])
   \<and> ((reqMethod r = ''GET'' \<or> reqMethod r = ''HEAD'')
        \<and> sanitizePath s (getwd env) (reqURLPath r) = Inl e \<longrightarrow>
        steps (handleRequestWith allowed blocked s env r)
          = [Received, MethodChecked, PathValidated, Respond Forbidden, Logged]
        \<and> response (handleRequestWith allowed blocked s env r) = errorResponse ''Forbidden'' 403
        \<and> map Status (logged (handleRequestWith allowed blocked s env r)) = [403])
   \<and> ((reqMethod r = ''GET'' \<or> reqMethod r = ''HEAD'')
        \<and> sanitizePath s (getwd env) (reqURLPath r) = Inr cleanPath
        \<and> osStat env cleanPath = ErrNotExist \<longrightarrow>
        steps (handleRequestWith allowed blocked s env r)
          = [Received, MethodChecked, PathValidated, Statd, Respond NotFound, Logged]
        \<and> response (handleRequestWith allowed blocked s env r) = errorResponse ''Not Found'' 404
        \<and> map Status (logged (handleRequestWith allowed blocked s env r)) = [404])
   \<and> ((reqMethod r = ''GET'' \<or> reqMethod r = ''HEAD'')
        \<and> sanitizePath s (getwd env) (reqURLPath r) = Inr cleanPath
        \<and> osStat env cleanPath = ErrOther \<longrightarrow>
        steps (handleRequestWith allowed blocked s env r)
          = [Received, MethodChecked, PathValidated, Statd, Respond InternalServerError, Logged]
        \<and> response (handleRequestWith allowed blocked s env r)
          = errorResponse ''Internal Server Error'' 500
        \<and> map Status (logged (handleRequestWith allowed blocked s env r)) = [500])
   \<and> ((reqMethod r = ''GET'' \<or> reqMethod r = ''HEAD'')
        \<and> sanitizePath s (getwd env) (reqURLPath r) = Inr cleanPath
        \<and> osStat env cleanPath = FileInfo True \<longrightarrow>
        steps (handleRequestWith allowed blocked s env r)
          = [Received, MethodChecked, PathValidated, Statd, Respond Forbidden, Logged]
        \<and> response (handleRequestWith allowed blocked s env r) = errorResponse ''Forbidden'' 403
        \<and> map Status (logged (handleRequestWith allowed blocked s env r)) = [403])
   \<and> ((reqMethod r = ''GET'' \<or> reqMethod r = ''HEAD'')
        \<and> sanitizePath s (getwd env) (reqURLPath r) = Inr cleanPath
        \<and> osStat env cleanPath = FileInfo False
        \<and> (index blocked (ToLower env (filepath_Ext cleanPath))
             \<or> \<not> index allowed (ToLower env (filepath_Ext cleanPath))) \<longrightarrow>
        steps (handleRequestWith allowed blocked s env r)
          = [Received, MethodChecked, PathValidated, Statd, ExtensionChecked, Respond Forbidden, Logged]
        \<and> response (handleRequestWith allowed blocked s env r) = errorResponse ''Forbidden'' 403
        \<and> map Status (logged (handleRequestWith allowed blocked s env r)) = [403])
   \<and> ((reqMethod r = ''GET'' \<or> reqMethod r = ''HEAD'')
        \<and> sanitizePath s (getwd env) (reqURLPath r) = Inr cleanPath
        \<and> osStat env cleanPath = FileInfo False
        \<and> \<not> index blocked (ToLower env (filepath_Ext cleanPath))
        \<and> index allowed (ToLower env (filepath_Ext cleanPath)) \<longrightarrow>
        steps (handleRequestWith allowed blocked s env r)
          = [Received, MethodChecked, PathValidated, Statd, ExtensionChecked, Respond Serving, Logged]
        \<and> response (handleRequestWith allowed blocked s env r)
          = ResponseWriter (served env r cleanPath)
        \<and> map Status (logged (handleRequestWith allowed blocked s env r))
          = [statusCode (served env r cleanPath)])
   \<and> (\<not> ((reqMethod r = ''GET'' \<or> reqMethod r = ''HEAD'')
           \<and> (\<exists>cleanPath. sanitizePath s (getwd env) (reqURLPath r) = Inr cleanPath
                 \<and> osStat env cleanPath = FileInfo False)) \<longrightarrow>
        handleRequestWith allowed' blocked' s (env\<lparr>ToLower := lower'\<rparr>) r
          = handleRequestWith allowed blocked s env r)"
proof -
  note defs = handleRequestWith_def handleBody_def Let_def http_Error_fresh errorResponse_def
    served_def
  have a: "steps (handleRequestWith allowed blocked s env r) \<in> set
     [[Received, MethodChecked, Respond MethodNotAllowed, Logged],
      [Received, MethodChecked, PathValidated, Respond Forbidden, Logged],
      [Received, MethodChecked, PathValidated, Statd, Respond NotFound, Logged],
      [Received, MethodChecked, PathValidated, Statd, Respond InternalServerError, Logged],
      [Received, MethodChecked, PathValidated, Statd, Respond Forbidden, Logged],
      [Received, MethodChecked, PathValidated, Statd, ExtensionChecked, Respond Forbidden, Logged],
      [Received, MethodChecked, PathValidated, Statd, ExtensionChecked, Respond Serving, Logged]]"
    by (auto simp: defs split: prod.splits sum.splits statResult.splits if_splits)
  have b: "ExtensionChecked \<in> set (steps (handleRequestWith allowed blocked s env r)) \<longleftrightarrow>
        (reqMethod r = ''GET'' \<or> reqMethod r = ''HEAD'')
        \<and> (\<exists>cleanPath. sanitizePath s (getwd env) (reqURLPath r) = Inr cleanPath
              \<and> osStat env cleanPath = FileInfo False)"
    by (auto simp: defs split: prod.splits sum.splits statResult.splits if_splits)
  have c: "reqMethod r \<noteq> ''GET'' \<and> reqMethod r \<noteq> ''HEAD'' \<longrightarrow>
        steps (handleRequestWith allowed blocked s env r)
          = [Received, MethodChecked, Respond MethodNotAllowed, Logged]
        \<and> response (handleRequestWith allowed blocked s env r)
          = errorResponse ''Method Not Allowed'' 405
        \<and> map Status (logged (handleRequestWith allowed blocked s env r)) = [405]"
    by (simp add: defs)
  have d: "(reqMethod r = ''GET'' \<or> reqMethod r = ''HEAD'')
        \<and> sanitizePath s (getwd env) (reqURLPath r) = Inl e \<longrightarrow>
        steps (handleRequestWith allowed blocked s env r)
          = [Received, MethodChecked, PathValidated, Respond Forbidden, Logged]
        \<and> response (handleRequestWith allowed blocked s env r) = errorResponse ''Forbidden'' 403
        \<and> map Status (logged (handleRequestWith allowed blocked s env r)) = [403]"
    by (auto simp: defs)
  have e: "(reqMethod r = ''GET'' \<or> reqMethod r = ''HEAD'')
        \<and> sanitizePath s (getwd env) (reqURLPath r) = Inr cleanPath
        \<and> osStat env cleanPath = ErrNotExist \<longrightarrow>
        steps (handleRequestWith allowed blocked s env r)
          = [Received, MethodChecked, PathValidated, Statd, Respond NotFound, Logged]
        \<and> response (handleRequestWith allowed blocked s env r) = errorResponse ''Not Found'' 404
        \<and> map Status (logged (handleRequestWith allowed blocked s env r)) = [404]"
    by (auto simp: defs)
  have f: "(reqMethod r = ''GET'' \<or> reqMethod r = ''HEAD'')
        \<and> sanitizePath s (getwd env) (reqURLPath r) = Inr cleanPath
        \<and> osStat env cleanPath = ErrOther \<longrightarrow>
        steps (handleRequestWith allowed blocked s env r)
          = [Received, MethodChecked, PathValidated, Statd, Respond InternalServerError, Logged]
        \<and> response (handleRequestWith allowed blocked s env r)
          = errorResponse ''Internal Server Error'' 500
        \<and> map Status (logged (handleRequestWith allowed blocked s env r)) = [500]"
    by (auto simp: defs)
  have g: "(reqMethod r = ''GET'' \<or> reqMethod r = ''HEAD'')
        \<and> sanitizePath s (getwd env) (reqURLPath r) = Inr cleanPath
        \<and> osStat env cleanPath = FileInfo True \<longrightarrow>
        steps (handleRequestWith allowed blocked s env r)
          = [Received, MethodChecked, PathValidated, Statd, Respond Forbidden, Logged]
        \<and> response (handleRequestWith allowed blocked s env r) = errorResponse ''Forbidden'' 403
        \<and> map Status (logged (handleRequestWith allowed blocked s env r)) = [403]"
    by (auto simp: defs)
  have h: "(reqMethod r = ''GET'' \<or> reqMethod r = ''HEAD'')
        \<and> sanitizePath s (getwd env) (reqURLPath r) = Inr cleanPath
        \<and> osStat env cleanPath = FileInfo False
        \<and> (index blocked (ToLower env (filepath_Ext cleanPath))
             \<or> \<not> index allowed (ToLower env (filepath_Ext cleanPath))) \<longrightarrow>
        steps (handleRequestWith allowed blocked s env r)
          = [Received, MethodChecked, PathValidated, Statd, ExtensionChecked, Respond Forbidden, Logged]
        \<and> response (handleRequestWith allowed blocked s env r) = errorResponse ''Forbidden'' 403
        \<and> map Status (logged (handleRequestWith allowed blocked s env r)) = [403]"
    by (auto simp: defs)
  have i: "(reqMethod r = ''GET'' \<or> reqMethod r = ''HEAD'')
        \<and> sanitizePath s (getwd env) (reqURLPath r) = Inr cleanPath
        \<and> osStat env cleanPath = FileInfo False
        \<and> \<not> index blocked (ToLower env (filepath_Ext cleanPath))
        \<and> index allowed (ToLower env (filepath_Ext cleanPath)) \<longrightarrow>
        steps (handleRequestWith allowed blocked s env r)
          = [Received, MethodChecked, PathValidated, Statd, ExtensionChecked, Respond Serving, Logged]
        \<and> response (handleRequestWith allowed blocked s env r)
          = ResponseWriter (served env r cleanPath)
        \<and> map Status (logged (handleRequestWith allowed blocked s env r))
          = [statusCode (served env r cleanPath)]"
    by (auto simp: defs)
  have j: "\<not> ((reqMethod r = ''GET'' \<or> reqMethod r = ''HEAD'')
           \<and> (\<exists>cleanPath. sanitizePath s (getwd env) (reqURLPath r) = Inr cleanPath
                 \<and> osStat env cleanPath = FileInfo False)) \<longrightarrow>
        handleRequestWith allowed' blocked' s (env\<lparr>ToLower := lower'\<rparr>) r
          = handleRequestWith allowed blocked s env r"
    by (auto simp: defs split: prod.splits sum.splits statResult.splits if_splits)
  from a b c d e f g h i j show ?thesis by (intro conjI)
qed

theorem handler_step_order_witness:
  "steps (handleRequestWith allowedExts blockedExts (mainServer chicago2025)
        (exampleEnv (\<lambda>p. ErrNotExist)) \<lparr>reqMethod = ''GET'', reqURLPath = ''/missing.log''\<rparr>)
     = [Received, MethodChecked, PathValidated, Statd, Respond NotFound, Logged]
   \<and> response (handleRequestWith allowedExts blockedExts (mainServer chicago2025)
        (exampleEnv (\<lambda>p. ErrNotExist)) \<lparr>reqMethod = ''GET'', reqURLPath = ''/missing.log''\<rparr>)
     = errorResponse ''Not Found'' 404
   \<and> map Status (logged (handleRequestWith allowedExts blockedExts (mainServer chicago2025)
        (exampleEnv (\<lambda>p. ErrNotExist)) \<lparr>reqMethod = ''GET'', reqURLPath = ''/missing.log''\<rparr>))
     = [404]"
  using handler_step_order
    [of allowedExts blockedExts "mainServer chicago2025" "exampleEnv (\<lambda>p. ErrNotExist)"
        "\<lparr>reqMethod = ''GET'', reqURLPath = ''/missing.log''\<rparr>" _ "''/var/www/missing.log''"]
    accept_missing_log
  by (simp add: exampleEnv_def)

text \<open>
  C2 as stated fails: \<^verbatim>\<open>GET /missing.log\<close>, for a file that does not exist and whose
  extension is blocked, reaches the stat, is answered 404 Not Found and never reaches the
  extension check.
\<close>

theorem extension_check_before_stat_counterexample:
  "index blockedExts (lowerASCII (filepath_Ext ''/var/www/missing.log''))
   \<and> steps (handleRequest (mainServer chicago2025) (exampleEnv (\<lambda>p. ErrNotExist))
        \<lparr>reqMethod = ''GET'', reqURLPath = ''/missing.log''\<rparr>)
     = [Received, MethodChecked, PathValidated, Statd, Respond NotFound, Logged]
   \<and> map Status (logged (handleRequest (mainServer chicago2025) (exampleEnv (\<lambda>p. ErrNotExist))
        \<lparr>reqMethod = ''GET'', reqURLPath = ''/missing.log''\<rparr>)) = [404]"
  by (simp add: handleRequest_def handleRequestWith_def handleBody_def exampleEnv_def
      accept_missing_log ext_missing_log http_Error_fresh index_def blockedExts_def)

text \<open>
  C6. For every request, whatever branch the handler takes, exactly one entry is passed to
  \<open>logRequest\<close>, as the last step, carrying the request's method and path. \<open>logRequest\<close>
  appends exactly one line to the current log file when the file opens and the entry is
  encoded, and changes no file otherwise.
\<close>

theorem one_log_entry:
  "length (logged (handleRequestWith allowed blocked s env r)) = 1
   \<and> count_list (steps (handleRequestWith allowed blocked s env r)) Logged = 1
   \<and> last (steps (handleRequestWith allowed blocked s env r)) = Logged
   \<and> map Method (logged (handleRequestWith allowed blocked s env r)) = [reqMethod r]
   \<and> map Path (logged (handleRequestWith allowed blocked s env r)) = [reqURLPath r]
   \<and> (\<not> openFails (currentLogFile s now) \<and> encode entry = Some line \<longrightarrow>
        files (logRequest s now openFails encode entry fs)
          = (files fs)(currentLogFile s now := files fs (currentLogFile s now) @ [line]))
   \<and> (openFails (currentLogFile s now) \<or> encode entry = None \<longrightarrow>
        files (logRequest s now openFails encode entry fs) = files fs)"
proof -
  have "files (logRequest s now openFails encode entry fs)
          = (files fs)(currentLogFile s now := files fs (currentLogFile s now) @ [line])"
    if "\<not> openFails (currentLogFile s now)" "encode entry = Some line"
    using that by (simp add: logRequest_def Let_def)
  moreover have "files (logRequest s now openFails encode entry fs) = files fs"
    if "openFails (currentLogFile s now) \<or> encode entry = None"
    using that by (auto simp: logRequest_def Let_def split: option.splits)
  ultimately show ?thesis
    using handleRequestWith_logged [of allowed blocked s env r] by blast
qed

lemma currentLogFile_example:
  "currentLogFile (mainServer chicago2025) 1741635420000000000 = ''/var/log/app/2025-03-10T14.log''"
  by code_simp

theorem one_log_entry_witness:
  "map Method (logged (handleRequestWith allowedExts blockedExts (mainServer chicago2025)
       (exampleEnv (\<lambda>p. ErrNotExist)) \<lparr>reqMethod = ''POST'', reqURLPath = ''/report.html''\<rparr>))
     = [''POST'']
   \<and> files (logRequest (mainServer chicago2025) 1741635420000000000 (\<lambda>path. False)
         (\<lambda>entry. Some ''{}'')
         \<lparr>Timestamp = [], Method = ''POST'', Path = ''/report.html'', Status = 405, Bytes = 19,
           Duration = ()\<rparr>
         \<lparr>files = (\<lambda>path. []), printed = []\<rparr>) ''/var/log/app/2025-03-10T14.log'' = [''{}'']"
  using one_log_entry
    [of allowedExts blockedExts "mainServer chicago2025" "exampleEnv (\<lambda>p. ErrNotExist)"
        "\<lparr>reqMethod = ''POST'', reqURLPath = ''/report.html''\<rparr>" "\<lambda>path. False"
        1741635420000000000 "\<lambda>entry. Some ''{}''"
        "\<lparr>Timestamp = [], Method = ''POST'', Path = ''/report.html'', Status = 405, Bytes = 19,
           Duration = ()\<rparr>" "''{}''" "\<lparr>files = (\<lambda>path. []), printed = []\<rparr>"]
  by (simp add: currentLogFile_example)

text \<open>
  C4. Whatever the two extension maps contain, a path whose lowercased extension is in
  the blocklist, or is not in the allowlist, is never served; when the request reaches
  the extension check (accepted method, existing file that is not a directory) it is
  answered 403 Forbidden. The blocklist wins over the allowlist: a blocked extension is
  rejected also when the allowlist has it. With the maps of the source, \<^verbatim>\<open>.log\<close> is
  blocked and not allowed, and the empty extension is not allowed.
\<close>

theorem extension_policy:
  assumes "sanitizePath s (getwd env) (reqURLPath r) = Inr cleanPath"
    and "index blocked (ToLower env (filepath_Ext cleanPath))
         \<or> \<not> index allowed (ToLower env (filepath_Ext cleanPath))"
  shows "Respond Serving \<notin> set (steps (handleRequestWith allowed blocked s env r))
       \<and> ((reqMethod r = ''GET'' \<or> reqMethod r = ''HEAD'')
            \<and> osStat env cleanPath = FileInfo False \<longrightarrow>
            steps (handleRequestWith allowed blocked s env r)
              = [Received, MethodChecked, PathValidated, Statd, ExtensionChecked,
                 Respond Forbidden, Logged]
            \<and> response (handleRequestWith allowed blocked s env r) = forbiddenResponse
            \<and> map Status (logged (handleRequestWith allowed blocked s env r)) = [403])
       \<and> index blockedExts ''.log'' \<and> \<not> index allowedExts ''.log'' \<and> \<not> index allowedExts []"
proof -
  have lists: "index blockedExts ''.log'' \<and> \<not> index allowedExts ''.log'' \<and> \<not> index allowedExts []"
    by (simp add: index_def blockedExts_def allowedExts_def)
  from assms have "Respond Serving \<notin> set (steps (handleRequestWith allowed blocked s env r))"
    by (auto simp: handleRequestWith_def handleBody_def Let_def
        split: prod.splits statResult.splits if_splits)
  moreover have "steps (handleRequestWith allowed blocked s env r)
              = [Received, MethodChecked, PathValidated, Statd, ExtensionChecked,
                 Respond Forbidden, Logged]
            \<and> response (handleRequestWith allowed blocked s env r) = forbiddenResponse
            \<and> map Status (logged (handleRequestWith allowed blocked s env r)) = [403]"
    if "reqMethod r = ''GET'' \<or> reqMethod r = ''HEAD''" "osStat env cleanPath = FileInfo False"
    using assms that
    by (auto simp: handleRequestWith_def handleBody_def Let_def http_Error_fresh
        forbiddenResponse_def)
  ultimately show ?thesis using lists by blast
qed

theorem extension_policy_witness:
  "index (allowedExts(''.log'' \<mapsto> True)) ''.log'' \<and> index blockedExts ''.log''
   \<and> steps (handleRequestWith (allowedExts(''.log'' \<mapsto> True)) blockedExts (mainServer chicago2025)
        (exampleEnv (\<lambda>p. FileInfo False)) \<lparr>reqMethod = ''GET'', reqURLPath = ''/access.log''\<rparr>)
     = [Received, MethodChecked, PathValidated, Statd, ExtensionChecked, Respond Forbidden, Logged]
   \<and> map Status (logged (handleRequestWith (allowedExts(''.log'' \<mapsto> True)) blockedExts
        (mainServer chicago2025) (exampleEnv (\<lambda>p. FileInfo False))
        \<lparr>reqMethod = ''GET'', reqURLPath = ''/access.log''\<rparr>)) = [403]"
proof -
  let ?env = "exampleEnv (\<lambda>p. FileInfo False)"
  let ?r = "\<lparr>reqMethod = ''GET'', reqURLPath = ''/access.log''\<rparr>"
  have a: "sanitizePath (mainServer chicago2025) (getwd ?env) (reqURLPath ?r) = Inr ''/var/www/access.log''"
    using accept_access_log by (simp add: exampleEnv_def)
  have b: "index blockedExts (ToLower ?env (filepath_Ext ''/var/www/access.log''))"
    using ext_access_log by (simp add: exampleEnv_def index_def blockedExts_def)
  then have b': "index blockedExts (ToLower ?env (filepath_Ext ''/var/www/access.log''))
      \<or> \<not> index (allowedExts(''.log'' \<mapsto> True)) (ToLower ?env (filepath_Ext ''/var/www/access.log''))"
    by simp
  have c: "osStat ?env ''/var/www/access.log'' = FileInfo False"
    by (simp add: exampleEnv_def)
  have d: "index (allowedExts(''.log'' \<mapsto> True)) ''.log'' \<and> index blockedExts ''.log''"
    by (simp add: index_def blockedExts_def)
  from extension_policy [OF a b'] c d show ?thesis by simp
qed

section \<open>Calendar, bucket names and their times\<close>

lemma div_step:
  assumes "0 < (k::int)"
  shows "y div k - (y - 1) div k = (if y mod k = 0 then 1 else 0)"
proof -
  define q r where "q = y div k" and "r = y mod k"
  have y: "y = k * q + r"
    by (simp add: q_def r_def)
  have r: "0 \<le> r" "r < k"
    using assms by (simp_all add: r_def)
  show ?thesis
  proof (cases "r = 0")
    case True
    with y have "y - 1 = k * (q - 1) + (k - 1)"
      by (simp add: algebra_simps)
    then have "(y - 1) div k = q - 1"
      using assms by (intro int_div_pos_eq [where r = "k - 1"]) simp_all
    with True show ?thesis
      by (simp add: q_def r_def)
  next
    case False
    with y have "y - 1 = k * q + (r - 1)"
      by simp
    then have "(y - 1) div k = q"
      using r False by (intro int_div_pos_eq [where r = "r - 1"]) simp_all
    with False show ?thesis
      by (simp add: q_def r_def)
  qed
qed

lemma mod_400_100: "(y::int) mod 400 = 0 \<Longrightarrow> y mod 100 = 0"
proof -
  assume a: "y mod 400 = 0"
  have "(100::int) dvd 400" by simp
  then have "y mod 400 mod 100 = y mod 100" by (rule mod_mod_cancel)
  with a show ?thesis by simp
qed

lemma mod_100_4: "(y::int) mod 100 = 0 \<Longrightarrow> y mod 4 = 0"
proof -
  assume a: "y mod 100 = 0"
  have "(4::int) dvd 100" by simp
  then have "y mod 100 mod 4 = y mod 4" by (rule mod_mod_cancel)
  with a show ?thesis by simp
qed

lemma leap_count:
  "(c \<longrightarrow> b) \<Longrightarrow> (b \<longrightarrow> a) \<Longrightarrow>
   365 + (if a then 1 else 0) - (if b then 1 else 0) + (if c then 1 else (0::int))
     = (if a \<and> (\<not> b \<or> c) then 366 else 365)"
  by (cases a; cases b; cases c; simp)

lemma daysSinceEpoch_step:
  "daysSinceEpoch (year + 1) = daysSinceEpoch year + (if isLeap year then 366 else 365)"
proof -
  have "daysSinceEpoch (year + 1) - daysSinceEpoch year
      = 365 + (year div 4 - (year - 1) div 4) - (year div 100 - (year - 1) div 100)
          + (year div 400 - (year - 1) div 400)"
    by (simp add: daysSinceEpoch_def)
  also have "\<dots> = (if isLeap year then 366 else 365)"
  proof -
    have s4: "year div 4 - (year - 1) div 4 = (if year mod 4 = 0 then 1 else 0)"
      by (rule div_step) simp
    have s100: "year div 100 - (year - 1) div 100 = (if year mod 100 = 0 then 1 else 0)"
      by (rule div_step) simp
    have s400: "year div 400 - (year - 1) div 400 = (if year mod 400 = 0 then 1 else 0)"
      by (rule div_step) simp
    show ?thesis
      unfolding s4 s100 s400 isLeap_def
    proof (rule leap_count)
      show "year mod 400 = 0 \<longrightarrow> year mod 100 = 0"
        using mod_400_100 [of year] by (rule impI)
      show "year mod 100 = 0 \<longrightarrow> year mod 4 = 0"
        using mod_100_4 [of year] by (rule impI)
    qed
  qed
  finally show ?thesis by simp
qed

lemma daysSinceEpoch_mono: "daysSinceEpoch year < daysSinceEpoch (year + 1)"
  by (simp add: daysSinceEpoch_step)

lemma yearFrom_correct:
  "daysSinceEpoch y0 \<le> n \<Longrightarrow>
   daysSinceEpoch (yearFrom n y0) \<le> n \<and> n < daysSinceEpoch (yearFrom n y0 + 1)"
proof (induction n y0 rule: yearFrom.induct)
  case (1 days year)
  show ?case
  proof (cases "daysSinceEpoch (year + 1) \<le> days")
    case True
    with "1.IH" have "daysSinceEpoch (yearFrom days (year + 1)) \<le> days
        \<and> days < daysSinceEpoch (yearFrom days (year + 1) + 1)"
      by simp
    moreover from True have "yearFrom days year = yearFrom days (year + 1)"
      by (subst yearFrom.simps) simp
    ultimately show ?thesis by simp
  next
    case False
    then have "yearFrom days year = year"
      by (subst yearFrom.simps) simp
    with False "1.prems" show ?thesis by simp
  qed
qed

lemma daysSinceEpoch_upper: "0 \<le> k \<Longrightarrow> daysSinceEpoch (1970 + k) \<le> 366 * k"
proof (induction k rule: int_ge_induct)
  case base
  show ?case by (simp add: daysSinceEpoch_def)
next
  case (step i)
  have "daysSinceEpoch (1970 + (i + 1)) = daysSinceEpoch (1970 + i + 1)"
    by (simp add: add.assoc)
  also have "\<dots> \<le> daysSinceEpoch (1970 + i) + 366"
    by (simp only: daysSinceEpoch_step) simp
  finally show ?case using step by simp
qed

lemma daysSinceEpoch_lower: "k \<le> 0 \<Longrightarrow> daysSinceEpoch (1970 + k) \<le> 365 * k"
proof (induction k rule: int_le_induct)
  case base
  show ?case by (simp add: daysSinceEpoch_def)
next
  case (step i)
  have "daysSinceEpoch (1970 + i) = daysSinceEpoch (1970 + (i - 1) + 1)"
    by simp
  also have "\<dots> \<ge> daysSinceEpoch (1970 + (i - 1)) + 365"
    by (simp only: daysSinceEpoch_step) simp
  finally show ?case using step by simp
qed

lemma yearOf_correct:
  "daysSinceEpoch (yearOf n) \<le> n \<and> n < daysSinceEpoch (yearOf n + 1)"
proof -
  let ?k = "if 0 \<le> n then n div 366 else n div 365"
  have "daysSinceEpoch (1970 + ?k) \<le> n"
  proof (cases "0 \<le> n")
    case True
    then have "0 \<le> n div 366" by simp
    then have "daysSinceEpoch (1970 + n div 366) \<le> 366 * (n div 366)"
      by (rule daysSinceEpoch_upper)
    also have "\<dots> \<le> n" by simp
    finally show ?thesis using True by simp
  next
    case False
    then have "n div 365 \<le> 0" by simp
    then have "daysSinceEpoch (1970 + n div 365) \<le> 365 * (n div 365)"
      by (rule daysSinceEpoch_lower)
    also have "\<dots> \<le> n" by simp
    finally show ?thesis using False by simp
  qed
  then show ?thesis
    unfolding yearOf_def by (rule yearFrom_correct)
qed


lemma daysBeforeMonth_values:
  "daysBeforeMonth y 1 = 0"
  "daysBeforeMonth y (Suc 0) = 0"
  "daysBeforeMonth y 2 = 31"
  "daysBeforeMonth y 3 = (if isLeap y then 60 else 59)"
  "daysBeforeMonth y 4 = (if isLeap y then 91 else 90)"
  "daysBeforeMonth y 5 = (if isLeap y then 121 else 120)"
  "daysBeforeMonth y 6 = (if isLeap y then 152 else 151)"
  "daysBeforeMonth y 7 = (if isLeap y then 182 else 181)"
  "daysBeforeMonth y 8 = (if isLeap y then 213 else 212)"
  "daysBeforeMonth y 9 = (if isLeap y then 244 else 243)"
  "daysBeforeMonth y 10 = (if isLeap y then 274 else 273)"
  "daysBeforeMonth y 11 = (if isLeap y then 305 else 304)"
  "daysBeforeMonth y 12 = (if isLeap y then 335 else 334)"
  by (simp_all add: daysBeforeMonth_def daysBefore_def)

lemma daysIn_values:
  "daysIn 1 y = 31"
  "daysIn (Suc 0) y = 31"
  "daysIn 2 y = (if isLeap y then 29 else 28)"
  "daysIn 3 y = 31"
  "daysIn 4 y = 30"
  "daysIn 5 y = 31"
  "daysIn 6 y = 30"
  "daysIn 7 y = 31"
  "daysIn 8 y = 31"
  "daysIn 9 y = 30"
  "daysIn 10 y = 31"
  "daysIn 11 y = 30"
  "daysIn 12 y = 31"
  by (simp_all add: daysIn_def daysBefore_def)

lemma monthOf_cases:
  "monthOf y yd \<in> {1, 2, 3, 4, 5, 6, 7, 8, 9, 10, 11, 12}"
  by (simp add: monthOf_def)

lemma monthOf_correct:
  assumes "0 \<le> yd" "yd < (if isLeap y then 366 else 365)"
  shows "daysBeforeMonth y (monthOf y yd) \<le> yd
       \<and> yd - daysBeforeMonth y (monthOf y yd) < daysIn (monthOf y yd) y"
proof (cases "isLeap y")
  case True
  with assms show ?thesis
    by (simp add: monthOf_def daysBeforeMonth_values daysIn_values)
next
  case False
  with assms show ?thesis
    by (simp add: monthOf_def daysBeforeMonth_values daysIn_values)
qed


lemma decimal_1: "u < 10 \<Longrightarrow> decimal u = [char_of (48 + u)]"
  by (subst decimal.simps) simp

lemma decimal_2:
  assumes "10 \<le> u" "u < 100"
  shows "decimal u = [char_of (48 + u div 10), char_of (48 + u mod 10)]"
proof -
  from assms have "u div 10 < 10" by simp
  then have "decimal (u div 10) = [char_of (48 + u div 10)]" by (rule decimal_1)
  with assms show ?thesis by (subst decimal.simps) simp
qed

lemma decimal_3:
  assumes "100 \<le> u" "u < 1000"
  shows "decimal u = [char_of (48 + u div 100), char_of (48 + u div 10 mod 10), char_of (48 + u mod 10)]"
proof -
  from assms have "10 \<le> u div 10" "u div 10 < 100" by simp_all
  then have "decimal (u div 10) = [char_of (48 + u div 10 div 10), char_of (48 + u div 10 mod 10)]"
    by (rule decimal_2)
  moreover have "u div 10 div 10 = u div 100" by (simp add: div_mult2_eq [symmetric])
  ultimately show ?thesis using assms by (subst decimal.simps) simp
qed

lemma decimal_4:
  assumes "1000 \<le> u" "u < 10000"
  shows "decimal u = [char_of (48 + u div 1000), char_of (48 + u div 100 mod 10),
                      char_of (48 + u div 10 mod 10), char_of (48 + u mod 10)]"
proof -
  from assms have "100 \<le> u div 10" "u div 10 < 1000" by simp_all
  then have "decimal (u div 10) = [char_of (48 + u div 10 div 100),
      char_of (48 + u div 10 div 10 mod 10), char_of (48 + u div 10 mod 10)]"
    by (rule decimal_3)
  moreover have "u div 10 div 10 = u div 100" "u div 10 div 100 = u div 1000"
    by (simp_all add: div_mult2_eq [symmetric])
  ultimately show ?thesis using assms by (subst decimal.simps) simp
qed

lemma char_of_48: "char_of (48 :: nat) = CHR ''0''"
  by code_simp

lemma pad_1: "replicate (2 - length [a]) c = [c]"
  by (simp add: eval_nat_numeral)
lemma pad_0: "replicate (2 - length [a, b]) c = []"
  by simp
lemma pad4_3: "replicate (4 - length [a]) c = [c, c, c]"
  by (simp add: eval_nat_numeral)
lemma pad4_2: "replicate (4 - length [a, b]) c = [c, c]"
  by (simp add: eval_nat_numeral)
lemma pad4_1: "replicate (4 - length [a, b, d]) c = [c]"
  by (simp add: eval_nat_numeral)
lemma pad4_0: "replicate (4 - length [a, b, d, e]) c = []"
  by (simp add: eval_nat_numeral)

lemma appendInt_2:
  assumes "0 \<le> x" "x < 100"
  shows "appendInt x 2 = [char_of (48 + nat x div 10), char_of (48 + nat x mod 10)]"
proof -
  let ?u = "nat x"
  from assms have u: "nat \<bar>x\<bar> = ?u" and nn: "\<not> x < 0" and lt: "?u < 100" by simp_all
  show ?thesis
  proof (cases "?u < 10")
    case True
    then have "?u div 10 = 0" "?u mod 10 = ?u" by simp_all
    then show ?thesis
      unfolding appendInt_def u decimal_1 [OF True] pad_1
      by (simp add: nn char_of_48)
  next
    case False
    then have ge: "10 \<le> ?u" by simp
    show ?thesis
      unfolding appendInt_def u decimal_2 [OF ge lt] pad_0
      by (simp add: nn)
  qed
qed

lemma appendInt_4:
  assumes "0 \<le> x" "x < 10000"
  shows "appendInt x 4 = [char_of (48 + nat x div 1000), char_of (48 + nat x div 100 mod 10),
                          char_of (48 + nat x div 10 mod 10), char_of (48 + nat x mod 10)]"
proof -
  let ?u = "nat x"
  from assms have u: "nat \<bar>x\<bar> = ?u" and nn: "\<not> x < 0" and lt: "?u < 10000" by simp_all
  consider (a) "?u < 10" | (b) "10 \<le> ?u" "?u < 100" | (c) "100 \<le> ?u" "?u < 1000" | (d) "1000 \<le> ?u"
    by linarith
  then show ?thesis
  proof cases
    case a
    then have "?u div 1000 = 0" "?u div 100 = 0" "?u div 10 = 0" "?u mod 10 = ?u" by simp_all
    then show ?thesis
      unfolding appendInt_def u decimal_1 [OF a] pad4_3
      by (simp add: nn char_of_48)
  next
    case b
    then have "?u div 1000 = 0" "?u div 100 = 0" "?u div 10 mod 10 = ?u div 10" by simp_all
    then show ?thesis
      unfolding appendInt_def u decimal_2 [OF b] pad4_2
      by (simp add: nn char_of_48)
  next
    case c
    then have "?u div 1000 = 0" "?u div 100 mod 10 = ?u div 100" by simp_all
    then show ?thesis
      unfolding appendInt_def u decimal_3 [OF c] pad4_1
      by (simp add: nn char_of_48)
  next
    case d
    show ?thesis
      unfolding appendInt_def u decimal_4 [OF d lt] pad4_0
      by (simp add: nn)
  qed
qed

lemma digits4:
  "(u::nat) < 10000 \<Longrightarrow> u div 1000 * 1000 + u div 100 mod 10 * 100 + u div 10 mod 10 * 10 + u mod 10 = u"
proof -
  assume "u < 10000"
  have a: "u div 10 * 10 + u mod 10 = u" by simp
  have b: "u div 100 * 10 + u div 10 mod 10 = u div 10"
    using div_mult_mod_eq [of "u div 10" 10] by (simp add: div_mult2_eq [symmetric])
  have c: "u div 1000 * 10 + u div 100 mod 10 = u div 100"
    using div_mult_mod_eq [of "u div 100" 10] by (simp add: div_mult2_eq [symmetric])
  from a b c show ?thesis by linarith
qed

lemma digitByte_char_of: "k < 10 \<Longrightarrow> digitByte (char_of (48 + k :: nat))"
  by (simp add: digitByte_def)

lemma of_char_digit: "k < 10 \<Longrightarrow> int (of_char (char_of (48 + k :: nat))) - 48 = int k"
  by simp

lemma skip_append: "skip (p @ r) p = Some r"
  by (induction p) simp_all

lemma parseYear_digits:
  assumes "digitByte a" "digitByte b" "digitByte c" "digitByte d"
  shows "parseYear (a # b # c # d # r)
       = Some ((int (of_char a) - 48) * 1000 + (int (of_char b) - 48) * 100
               + (int (of_char c) - 48) * 10 + (int (of_char d) - 48), r)"
  using assms by (simp add: parseYear_def isDigit_def digitAt_def)

lemma getnum_two:
  assumes "digitByte a" "digitByte b"
  shows "getnum (a # b # r) fixed = Some ((int (of_char a) - 48) * 10 + (int (of_char b) - 48), r)"
  using assms by (simp add: getnum_def isDigit_def digitAt_def)

lemma Parse_digits:
  assumes "digitByte y1" "digitByte y2" "digitByte y3" "digitByte y4"
    and "digitByte m1" "digitByte m2" "digitByte d1" "digitByte d2"
    and "digitByte h1" "digitByte h2"
    and y: "year = (int (of_char y1) - 48) * 1000 + (int (of_char y2) - 48) * 100
               + (int (of_char y3) - 48) * 10 + (int (of_char y4) - 48)"
    and m: "month = (int (of_char m1) - 48) * 10 + (int (of_char m2) - 48)"
    and d: "day = (int (of_char d1) - 48) * 10 + (int (of_char d2) - 48)"
    and h: "hour = (int (of_char h1) - 48) * 10 + (int (of_char h2) - 48)"
    and ok: "1 \<le> month" "month \<le> 12" "0 \<le> hour" "hour < 24" "1 \<le> day"
      "day \<le> daysIn (nat month) year"
  shows "ParseInLocation ([y1, y2, y3, y4] @ ''-'' @ [m1, m2] @ ''-'' @ [d1, d2] @ ''T''
            @ [h1, h2] @ ''.log'') loc
       = Some (time_Date year (nat month) day hour loc)"
proof -
  have 1: "parseYear ([y1, y2, y3, y4] @ ''-'' @ [m1, m2] @ ''-'' @ [d1, d2] @ ''T'' @ [h1, h2] @ ''.log'')
      = Some (year, ''-'' @ [m1, m2] @ ''-'' @ [d1, d2] @ ''T'' @ [h1, h2] @ ''.log'')"
    using parseYear_digits [OF assms(1-4)] y by simp
  have 2: "getnum ([m1, m2] @ ''-'' @ [d1, d2] @ ''T'' @ [h1, h2] @ ''.log'') True
      = Some (month, ''-'' @ [d1, d2] @ ''T'' @ [h1, h2] @ ''.log'')"
    using getnum_two [OF assms(5,6)] m by simp
  have 3: "getnum ([d1, d2] @ ''T'' @ [h1, h2] @ ''.log'') True
      = Some (day, ''T'' @ [h1, h2] @ ''.log'')"
    using getnum_two [OF assms(7,8)] d by simp
  have 4: "getnum ([h1, h2] @ ''.log'') False = Some (hour, ''.log'')"
    using getnum_two [OF assms(9,10)] h by simp
  show ?thesis
    unfolding ParseInLocation_def 1 option.case prod.case skip_append 2 3 4
    using ok by simp
qed

lemma daysIn_le_31: "m \<in> {1, 2, 3, 4, 5, 6, 7, 8, 9, 10, 11, 12} \<Longrightarrow> daysIn m y \<le> 31"
  by (auto simp: daysIn_values)

lemma Parse_appendInt:
  assumes y: "0 \<le> y" "y < 10000"
    and m: "m \<in> {1, 2, 3, 4, 5, 6, 7, 8, 9, 10, 11, 12}"
    and d: "1 \<le> d" "d \<le> daysIn m y"
    and h: "0 \<le> h" "h < 24"
  shows "ParseInLocation (appendInt y 4 @ ''-'' @ appendInt (int m) 2 @ ''-'' @ appendInt d 2
            @ ''T'' @ appendInt h 2 @ ''.log'') loc
       = Some (time_Date y m d h loc)"
proof -
  from m have m': "1 \<le> m" "m \<le> 12" by auto
  from d daysIn_le_31 [OF m, of y] have d': "0 \<le> d" "d < 100" by simp_all
  from h have h': "h < 100" by simp
  from m' have mi: "0 \<le> int m" "int m < 100" by simp_all
  let ?y = "nat y" and ?m = "nat (int m)" and ?d = "nat d" and ?h = "nat h"
  have ylt: "?y < 10000" using y by simp
  have bounds: "?y div 1000 < 10" "?y div 100 mod 10 < 10" "?y div 10 mod 10 < 10" "?y mod 10 < 10"
    "?m div 10 < 10" "?m mod 10 < 10" "?d div 10 < 10" "?d mod 10 < 10"
    "?h div 10 < 10" "?h mod 10 < 10"
    using ylt m' d' h' by simp_all
  have yv: "y = (int (of_char (char_of (48 + ?y div 1000))) - 48) * 1000
            + (int (of_char (char_of (48 + ?y div 100 mod 10))) - 48) * 100
            + (int (of_char (char_of (48 + ?y div 10 mod 10))) - 48) * 10
            + (int (of_char (char_of (48 + ?y mod 10))) - 48)"
  proof -
    have "int (?y div 1000 * 1000 + ?y div 100 mod 10 * 100 + ?y div 10 mod 10 * 10 + ?y mod 10) = int ?y"
      by (simp only: digits4 [OF ylt])
    then show ?thesis
      unfolding of_char_digit [OF bounds(1)] of_char_digit [OF bounds(2)]
        of_char_digit [OF bounds(3)] of_char_digit [OF bounds(4)]
      using y(1) by simp
  qed
  have two: "int u = (int (of_char (char_of (48 + u div 10))) - 48) * 10
            + (int (of_char (char_of (48 + u mod 10))) - 48)" if "u < 100" for u :: nat
  proof -
    from that have b: "u div 10 < 10" "u mod 10 < 10" by simp_all
    show ?thesis
      unfolding of_char_digit [OF b(1)] of_char_digit [OF b(2)]
      by (simp add: zdiv_int zmod_int)
  qed
  have mn: "?m = m" by simp
  have mv: "int m = (int (of_char (char_of (48 + ?m div 10))) - 48) * 10
            + (int (of_char (char_of (48 + ?m mod 10))) - 48)"
    unfolding mn by (rule two) (use m' in simp)
  have dv: "d = (int (of_char (char_of (48 + ?d div 10))) - 48) * 10
            + (int (of_char (char_of (48 + ?d mod 10))) - 48)"
  proof -
    have A: "int ?d = (int (of_char (char_of (48 + ?d div 10))) - 48) * 10
            + (int (of_char (char_of (48 + ?d mod 10))) - 48)"
      by (rule two) (use d' in simp)
    have B: "int ?d = d" using d' by simp
    from trans [OF sym [OF B] A] show ?thesis .
  qed
  have hv: "h = (int (of_char (char_of (48 + ?h div 10))) - 48) * 10
            + (int (of_char (char_of (48 + ?h mod 10))) - 48)"
  proof -
    have A: "int ?h = (int (of_char (char_of (48 + ?h div 10))) - 48) * 10
            + (int (of_char (char_of (48 + ?h mod 10))) - 48)"
      by (rule two) (use h h' in simp)
    have B: "int ?h = h" using h by simp
    from trans [OF sym [OF B] A] show ?thesis .
  qed
  have "ParseInLocation
          ([char_of (48 + ?y div 1000), char_of (48 + ?y div 100 mod 10),
            char_of (48 + ?y div 10 mod 10), char_of (48 + ?y mod 10)] @ ''-''
           @ [char_of (48 + ?m div 10), char_of (48 + ?m mod 10)] @ ''-''
           @ [char_of (48 + ?d div 10), char_of (48 + ?d mod 10)] @ ''T''
           @ [char_of (48 + ?h div 10), char_of (48 + ?h mod 10)] @ ''.log'') loc
        = Some (time_Date y (nat (int m)) d h loc)"
    by (rule Parse_digits [OF bounds [THEN digitByte_char_of] yv mv dv hv])
       (use m' d h in simp_all)
  then show ?thesis
    unfolding appendInt_4 [OF y] appendInt_2 [OF mi] appendInt_2 [OF d'] appendInt_2 [OF h(1) h']
    by simp
qed

lemma civil_fields:
  fixes abs :: int
  defines "days \<equiv> abs div 86400"
    and "hour \<equiv> (abs mod 86400) div 3600"
  defines "year \<equiv> yearOf days"
  defines "yday \<equiv> days - daysSinceEpoch year"
  defines "month \<equiv> monthOf year yday"
  defines "day \<equiv> yday - daysBeforeMonth year month + 1"
  shows "month \<in> {1, 2, 3, 4, 5, 6, 7, 8, 9, 10, 11, 12}"
    and "1 \<le> day" and "day \<le> daysIn month year" and "0 \<le> hour" and "hour < 24"
    and "civilSeconds year month day hour = abs - abs mod 3600"
proof -
  show "month \<in> {1, 2, 3, 4, 5, 6, 7, 8, 9, 10, 11, 12}"
    unfolding month_def by (rule monthOf_cases)
  have yr: "daysSinceEpoch year \<le> days" "days < daysSinceEpoch (year + 1)"
    using yearOf_correct [of days] by (simp_all add: year_def)
  then have yd: "0 \<le> yday" "yday < (if isLeap year then 366 else 365)"
    by (simp_all add: yday_def daysSinceEpoch_step)
  from monthOf_correct [OF yd] have mo: "daysBeforeMonth year month \<le> yday"
    "yday - daysBeforeMonth year month < daysIn month year"
    by (simp_all add: month_def)
  then show "1 \<le> day" and "day \<le> daysIn month year"
    by (simp_all add: day_def)
  show "0 \<le> hour" and "hour < 24"
    by (simp_all add: hour_def)
  have "(3600::int) dvd 86400" by simp
  then have mm: "abs mod 86400 mod 3600 = abs mod 3600"
    by (rule mod_mod_cancel)
  have h: "hour * 3600 = abs mod 86400 - abs mod 86400 mod 3600"
    unfolding hour_def by (simp add: minus_mod_eq_div_mult [symmetric])
  have d: "days * 86400 = abs - abs mod 86400"
    unfolding days_def by (simp add: minus_mod_eq_div_mult [symmetric])
  have "civilSeconds year month day hour = days * 86400 + hour * 3600"
    by (simp add: civilSeconds_def day_def yday_def)
  also have "\<dots> = abs - abs mod 3600"
    unfolding h d mm by simp
  finally show "civilSeconds year month day hour = abs - abs mod 3600" .
qed

lemma time_Date_offset:
  assumes "\<forall>sec. lo \<le> fst (loc sec) \<and> fst (loc sec) \<le> hi"
  shows "\<exists>off. lo \<le> off \<and> off \<le> hi
            \<and> time_Date y m d h loc = 1000000000 * (civilSeconds y m d h - off)"
proof -
  let ?unix = "civilSeconds y m d h"
  obtain offset start finish where l: "loc ?unix = (offset, start, finish)"
    by (cases "loc ?unix") auto
  then have o: "offset = fst (loc ?unix)" by simp
  show ?thesis
  proof (cases "offset \<noteq> 0 \<and> (?unix - offset < start \<or> ?unix - offset \<ge> finish)")
    case True
    then have "time_Date y m d h loc = 1000000000 * (?unix - fst (loc (?unix - offset)))"
      by (auto simp: time_Date_def Let_def l)
    with assms show ?thesis by blast
  next
    case False
    then have "time_Date y m d h loc = 1000000000 * (?unix - offset)"
      by (auto simp: time_Date_def Let_def l)
    with assms o show ?thesis by blast
  qed
qed

lemma decimal_digits: "c \<in> set (decimal u) \<Longrightarrow> digitByte c"
proof (induction u arbitrary: c rule: decimal.induct)
  case (1 u)
  show ?case
  proof (cases "u < 10")
    case True
    with "1.prems" show ?thesis
      by (simp add: decimal_1 digitByte_def)
  next
    case False
    then have "decimal u = decimal (u div 10) @ [char_of (48 + u mod 10)]"
      by (subst decimal.simps) simp
    with "1.prems" have "c \<in> set (decimal (u div 10)) \<or> c = char_of (48 + u mod 10)"
      by auto
    then show ?thesis
    proof
      assume "c \<in> set (decimal (u div 10))"
      with False show ?thesis by (intro "1.IH") simp_all
    next
      assume "c = char_of (48 + u mod 10)"
      then show ?thesis by (simp add: digitByte_char_of)
    qed
  qed
qed

lemma decimal_length_ge4: "1000 \<le> u \<Longrightarrow> 4 \<le> length (decimal u)"
proof (induction u rule: decimal.induct)
  case (1 u)
  show ?case
  proof (cases "u < 10000")
    case True
    with "1.prems" show ?thesis by (simp add: decimal_4)
  next
    case False
    then have "decimal u = decimal (u div 10) @ [char_of (48 + u mod 10)]"
      by (subst decimal.simps) simp
    moreover from False have "4 \<le> length (decimal (u div 10))"
      by (intro "1.IH") simp_all
    ultimately show ?thesis by simp
  qed
qed

lemma decimal_length_ge5: "10000 \<le> u \<Longrightarrow> 5 \<le> length (decimal u)"
proof -
  assume a: "10000 \<le> u"
  then have "decimal u = decimal (u div 10) @ [char_of (48 + u mod 10)]"
    by (subst decimal.simps) simp
  moreover from a have "4 \<le> length (decimal (u div 10))"
    by (intro decimal_length_ge4) simp
  ultimately show ?thesis by simp
qed

lemma digitByte_not_minus: "digitByte c \<Longrightarrow> c \<noteq> CHR ''-''"
  by (auto simp: digitByte_def)

lemma Parse_long_year:
  assumes "10000 \<le> y"
  shows "ParseInLocation (appendInt y 4 @ rest) loc = None"
proof -
  let ?ds = "decimal (nat y)"
  from assms have len: "5 \<le> length ?ds"
    by (intro decimal_length_ge5) simp
  then obtain a b c d e ds where ds: "?ds = a # b # c # d # e # ds"
    by (cases ?ds; simp; rename_tac x1 l1; case_tac l1; simp; rename_tac x2 l2; case_tac l2; simp;
        rename_tac x3 l3; case_tac l3; simp; rename_tac x4 l4; case_tac l4; simp)
  have dig: "digitByte a" "digitByte b" "digitByte c" "digitByte d" "digitByte e"
    using decimal_digits [of _ "nat y"] by (simp_all add: ds)
  from assms len have app: "appendInt y 4 = ?ds"
    by (simp add: appendInt_def)
  have "parseYear (a # b # c # d # (e # ds @ rest))
      = Some ((int (of_char a) - 48) * 1000 + (int (of_char b) - 48) * 100
               + (int (of_char c) - 48) * 10 + (int (of_char d) - 48), e # ds @ rest)"
    by (rule parseYear_digits [OF dig(1-4)])
  moreover have "skip (e # ds @ rest) ''-'' = None"
    using digitByte_not_minus [OF dig(5)] by simp
  ultimately show ?thesis
    unfolding app ds ParseInLocation_def by simp
qed

lemma Parse_negative_year:
  assumes "y < 0"
  shows "ParseInLocation (appendInt y 4 @ rest) loc = None"
proof -
  from assms obtain s where "appendInt y 4 = CHR ''-'' # s"
    by (simp add: appendInt_def)
  then have "parseYear (appendInt y 4 @ rest) = None"
    by (simp add: parseYear_def isDigit_def digitByte_def)
  then show ?thesis
    by (simp add: ParseInLocation_def)
qed

lemma Parse_Format:
  fixes loc :: location and now :: int
  defines "civil \<equiv> now div 1000000000 + fst (loc (now div 1000000000))"
  assumes "ParseInLocation (Format loc now @ ''.log'') loc = Some t"
  shows "\<exists>y m d h. t = time_Date y m d h loc \<and> civilSeconds y m d h = civil - civil mod 3600"
proof -
  define days where "days = civil div 86400"
  define hour where "hour = (civil mod 86400) div 3600"
  define year where "year = yearOf days"
  define yday where "yday = days - daysSinceEpoch year"
  define month where "month = monthOf year yday"
  define day where "day = yday - daysBeforeMonth year month + 1"
  note f = civil_fields [of civil, folded days_def hour_def, folded year_def, folded yday_def,
      folded month_def, folded day_def]
  have fmt: "Format loc now @ ''.log''
      = appendInt year 4 @ (''-'' @ appendInt (int month) 2 @ ''-'' @ appendInt day 2
           @ ''T'' @ appendInt hour 2 @ ''.log'')"
    by (simp add: Format_def Let_def civil_def days_def hour_def year_def yday_def month_def day_def)
  have range: "0 \<le> year \<and> year < 10000"
  proof (rule ccontr)
    assume "\<not> (0 \<le> year \<and> year < 10000)"
    then consider "year < 0" | "10000 \<le> year" by linarith
    then have "ParseInLocation (Format loc now @ ''.log'') loc = None"
      unfolding fmt by cases (rule Parse_negative_year, assumption, rule Parse_long_year, assumption)
    with assms(2) show False by simp
  qed
  then have "ParseInLocation (Format loc now @ ''.log'') loc = Some (time_Date year month day hour loc)"
    unfolding fmt using Parse_appendInt [OF _ _ f(1-5), of loc] by simp
  with assms(2) f(6) show ?thesis by auto
qed

lemma current_bucket_time:
  assumes offs: "\<forall>sec. lo \<le> fst (loc sec) \<and> fst (loc sec) \<le> hi"
    and parse: "ParseInLocation (Format loc now @ ''.log'') loc = Some t"
  shows "now - t < 1000000000 * (3600 + (hi - lo))"
proof -
  let ?sec = "now div 1000000000"
  let ?abs = "?sec + fst (loc ?sec)"
  from Parse_Format [OF parse] obtain y m d h where
    t: "t = time_Date y m d h loc" and cs: "civilSeconds y m d h = ?abs - ?abs mod 3600"
    by blast
  from time_Date_offset [OF offs, of y m d h] obtain off where
    off: "lo \<le> off" "off \<le> hi" and td: "time_Date y m d h loc = 1000000000 * (civilSeconds y m d h - off)"
    by blast
  from offs have o2: "lo \<le> fst (loc ?sec)" by blast
  have m: "?abs mod 3600 < 3600" by simp
  have n1: "1000000000 * ?sec = now - now mod 1000000000"
    by (simp add: minus_mod_eq_mult_div)
  have n2: "now mod 1000000000 < 1000000000" by simp
  have n3: "1000000000 * (?sec + 1) = 1000000000 * ?sec + 1000000000"
    by (simp add: algebra_simps)
  have n: "now < 1000000000 * (?sec + 1)"
    unfolding n3 n1 using n2 by linarith
  have "now - t < 1000000000 * (?sec + 1) - 1000000000 * (?abs - ?abs mod 3600 - off)"
    unfolding t td cs using n by simp
  also have "\<dots> = 1000000000 * (1 + ?abs mod 3600 + off - fst (loc ?sec))"
    by (simp add: algebra_simps)
  also have "\<dots> \<le> 1000000000 * (3600 + (hi - lo))"
    using m off o2 by simp
  finally show ?thesis .
qed

lemma skip_Some: "skip v p = Some r \<Longrightarrow> v = p @ r"
  by (induction v p rule: skip.induct) (auto split: if_splits)

lemma parseYear_Some:
  assumes "parseYear v = Some (y, r)"
  shows "\<exists>ds. v = ds @ r \<and> ds \<noteq> [] \<and> (\<forall>c\<in>set ds. digitByte c)"
proof -
  from assms have len: "4 \<le> length v" and d: "isDigit v 0" "isDigit v 1" "isDigit v 2" "isDigit v 3"
    and r: "r = drop 4 v"
    by (auto simp: parseYear_def split: if_splits)
  have v: "v = take 4 v @ r"
    by (simp add: r)
  have "\<forall>c\<in>set (take 4 v). digitByte c"
  proof
    fix c assume "c \<in> set (take 4 v)"
    then obtain i where i: "i < 4" "i < length v" "c = v ! i"
      by (auto simp: in_set_conv_nth)
    then have "i = 0 \<or> i = 1 \<or> i = 2 \<or> i = 3" by linarith
    with d i show "digitByte c" by (auto simp: isDigit_def)
  qed
  moreover from len have "take 4 v \<noteq> []" by auto
  ultimately show ?thesis using v by blast
qed

lemma getnum_Some:
  assumes "getnum v fixed = Some (n, r)"
  shows "\<exists>ds. v = ds @ r \<and> ds \<noteq> [] \<and> (\<forall>c\<in>set ds. digitByte c)"
proof (cases "isDigit v 1")
  case True
  with assms have d0: "isDigit v 0" and r: "r = drop 2 v"
    by (auto simp: getnum_def split: if_splits)
  from True have len: "2 \<le> length v" by (simp add: isDigit_def)
  have "\<forall>c\<in>set (take 2 v). digitByte c"
  proof
    fix c assume "c \<in> set (take 2 v)"
    then obtain i where i: "i < 2" "i < length v" "c = v ! i"
      by (auto simp: in_set_conv_nth)
    then have "i = 0 \<or> i = 1" by linarith
    with d0 True i show "digitByte c" by (auto simp: isDigit_def)
  qed
  moreover from len have "take 2 v \<noteq> []" by auto
  moreover have "v = take 2 v @ r" by (simp add: r)
  ultimately show ?thesis by blast
next
  case False
  with assms have d0: "isDigit v 0" and r: "r = drop 1 v"
    by (auto simp: getnum_def split: if_splits)
  then obtain a where v: "v = a # r" and "digitByte a"
    by (cases v) (auto simp: isDigit_def)
  then have "v = [a] @ r \<and> [a] \<noteq> [] \<and> (\<forall>c\<in>set [a]. digitByte c)" by simp
  then show ?thesis by blast
qed

lemma ParseInLocation_shape:
  assumes "ParseInLocation v loc = Some t"
  shows "\<exists>ds1 ds2 ds3 ds4.
           v = ds1 @ ''-'' @ ds2 @ ''-'' @ ds3 @ ''T'' @ ds4 @ ''.log''
         \<and> (\<forall>c\<in>set (ds1 @ ds2 @ ds3 @ ds4). digitByte c)"
proof -
  from assms obtain year v1 v2 month v3 v4 day v5 v6 hour v7 where
    1: "parseYear v = Some (year, v1)" and 2: "skip v1 ''-'' = Some v2"
    and 3: "getnum v2 True = Some (month, v3)" and 4: "skip v3 ''-'' = Some v4"
    and 5: "getnum v4 True = Some (day, v5)" and 6: "skip v5 ''T'' = Some v6"
    and 7: "getnum v6 False = Some (hour, v7)" and 8: "skip v7 ''.log'' = Some []"
    by (auto simp: ParseInLocation_def split: option.splits prod.splits if_splits)
  from parseYear_Some [OF 1] obtain ds1 where a: "v = ds1 @ v1" "\<forall>c\<in>set ds1. digitByte c" by blast
  from getnum_Some [OF 3] obtain ds2 where b: "v2 = ds2 @ v3" "\<forall>c\<in>set ds2. digitByte c" by blast
  from getnum_Some [OF 5] obtain ds3 where c: "v4 = ds3 @ v5" "\<forall>c\<in>set ds3. digitByte c" by blast
  from getnum_Some [OF 7] obtain ds4 where d: "v6 = ds4 @ v7" "\<forall>c\<in>set ds4. digitByte c" by blast
  have e: "v = ds1 @ ''-'' @ ds2 @ ''-'' @ ds3 @ ''T'' @ ds4 @ ''.log''"
    using a(1) b(1) c(1) d(1) skip_Some [OF 2] skip_Some [OF 4] skip_Some [OF 6] skip_Some [OF 8]
    by simp
  have f: "\<forall>c\<in>set (ds1 @ ds2 @ ds3 @ ds4). digitByte c"
    using a(2) b(2) c(2) d(2) by auto
  from e f show ?thesis by blast
qed

lemma ParseInLocation_suffix:
  assumes "ParseInLocation v loc = Some t"
  shows "strings_HasSuffix v ''.log''"
proof -
  from ParseInLocation_shape [OF assms] obtain pre where "v = pre @ ''.log''"
    by (metis append.assoc)
  then show ?thesis by (simp add: strings_HasSuffix_def)
qed

lemma ParseInLocation_goodElem:
  assumes "ParseInLocation v loc = Some t"
  shows "goodElem v"
proof -
  from ParseInLocation_shape [OF assms] obtain ds1 ds2 ds3 ds4 where
    v: "v = ds1 @ ''-'' @ ds2 @ ''-'' @ ds3 @ ''T'' @ ds4 @ ''.log''"
    and dig: "\<forall>c\<in>set (ds1 @ ds2 @ ds3 @ ds4). digitByte c"
    by blast
  have nd: "\<not> digitByte CHR ''/''"
    by (simp add: digitByte_def)
  with dig have "CHR ''/'' \<notin> set (ds1 @ ds2 @ ds3 @ ds4)" by blast
  then have a: "CHR ''/'' \<notin> set v" by (simp add: v)
  have b: "CHR ''T'' \<in> set v" by (simp add: v)
  then have "v \<noteq> []" "v \<noteq> ''.''" "v \<noteq> ''..''" by auto
  with a show ?thesis by (simp add: goodElem_def)
qed

lemma filepath_Base_Join:
  assumes "goodElem e"
  shows "filepath_Base (filepath_Join [d, e]) = e"
proof -
  have "\<exists>q. filepath_Join [d, e] = q @ e \<and> (q = [] \<or> last q = CHR ''/'')"
  proof (cases "d = []")
    case True
    then have "filepath_Join [d, e] = [] @ e"
      unfolding filepath_Join_root_elem [OF assms] by simp
    then show ?thesis by blast
  next
    case False
    then show ?thesis
      unfolding filepath_Join_root_elem [OF assms]
      using filepath_Clean_append_shape [OF False assms] by simp
  qed
  then obtain q where "filepath_Join [d, e] = q @ e" and "q = [] \<or> last q = CHR ''/''"
    by blast
  then show ?thesis
    using filepath_Base_elem [OF _ assms] by simp
qed

section \<open>Retention sweep\<close>

lemma expired_iff:
  "expired s cutoff entry \<longleftrightarrow>
     \<not> IsDir entry \<and> strings_HasSuffix (Name entry) ''.log''
     \<and> (\<exists>t. ParseInLocation (Name entry) (location s) = Some t \<and> t < cutoff)"
  using ParseInLocation_suffix [of "Name entry" "location s"]
  by (auto simp: expired_def split: option.splits)

lemma cleanupLoop_calls:
  "removeCalls (cleanupLoop s removeFails cutoff entries st)
     = removeCalls st @ map (\<lambda>e. filepath_Join [logDir s, Name e]) (filter (expired s cutoff) entries)
   \<and> removed (cleanupLoop s removeFails cutoff entries st)
     = removed st @ map (\<lambda>e. filepath_Join [logDir s, Name e])
         (filter (\<lambda>e. expired s cutoff e \<and> \<not> removeFails (filepath_Join [logDir s, Name e])) entries)"
proof (induction entries arbitrary: st)
  case Nil
  show ?case by simp
next
  case (Cons entry entries)
  show ?case
  proof (cases "expired s cutoff entry")
    case False
    then have "cleanupLoop s removeFails cutoff (entry # entries) st
        = cleanupLoop s removeFails cutoff entries st"
      by (auto simp: expired_iff split: option.splits)
    with False Cons [of st] show ?thesis by simp
  next
    case True
    then obtain t where t: "\<not> IsDir entry" "strings_HasSuffix (Name entry) ''.log''"
      "ParseInLocation (Name entry) (location s) = Some t" "t < cutoff"
      by (auto simp: expired_iff)
    let ?p = "filepath_Join [logDir s, Name entry]"
    show ?thesis
    proof (cases "removeFails ?p")
      case fails: True
      let ?st = "st\<lparr>removeCalls := removeCalls st @ [?p],
                     messages := messages st @ [''Failed to remove old log '' @ ?p]\<rparr>"
      from t fails have "cleanupLoop s removeFails cutoff (entry # entries) st
          = cleanupLoop s removeFails cutoff entries ?st"
        by (simp del: filepath_Join.simps)
      with True fails Cons [of ?st] show ?thesis by (simp del: filepath_Join.simps)
    next
      case ok: False
      let ?st = "st\<lparr>removeCalls := removeCalls st @ [?p], removed := removed st @ [?p],
                     messages := messages st @ [''Cleaned up old log: '' @ Name entry]\<rparr>"
      from t ok have "cleanupLoop s removeFails cutoff (entry # entries) st
          = cleanupLoop s removeFails cutoff entries ?st"
        by (simp del: filepath_Join.simps)
      with True ok Cons [of ?st] show ?thesis by (simp del: filepath_Join.simps)
    qed
  qed
qed

lemma sint_of_int_64: "- (2 ^ 63) \<le> x \<Longrightarrow> x < 2 ^ 63 \<Longrightarrow> sint (word_of_int x :: 64 word) = x"
  by (simp add: sint_sbintrunc' signed_take_bit_int_eq_self)

lemma retention_no_overflow:
  assumes "0 \<le> h" "h \<le> 2562047"
  shows "sint (- (word_of_int h :: 64 word) * Hour) = - (h * 3600000000000)"
proof -
  have w: "- (word_of_int h :: 64 word) * Hour = word_of_int (- (h * 3600000000000))"
    by (simp add: Hour_def)
  from assms have "h * 3600000000000 \<le> 2562047 * 3600000000000"
    by simp
  with assms have "- (2 ^ 63) \<le> - (h * 3600000000000)" "- (h * 3600000000000) < 2 ^ 63"
    by simp_all
  then show ?thesis
    unfolding w by (rule sint_of_int_64)
qed


lemma appendInt_chars: "c \<in> set (appendInt x w) \<Longrightarrow> digitByte c \<or> c = CHR ''-''"
  using decimal_digits [of c "nat \<bar>x\<bar>"]
  by (auto simp: appendInt_def digitByte_def split: if_splits)

lemma Format_goodElem: "goodElem (Format loc now @ ''.log'')"
proof -
  let ?n = "Format loc now @ ''.log''"
  have nd: "\<not> digitByte CHR ''/''" by (simp add: digitByte_def)
  have "c \<noteq> CHR ''/''" if "c \<in> set ?n" for c
    using that nd appendInt_chars [of c]
    by (auto simp: Format_def Let_def)
  then have a: "CHR ''/'' \<notin> set ?n" by blast
  have "CHR ''l'' \<in> set ?n" by simp
  then have "?n \<noteq> []" "?n \<noteq> ''.''" "?n \<noteq> ''..''" by auto
  with a show ?thesis by (simp add: goodElem_def)
qed

lemma cleanupOldLogs_Some:
  assumes "0 \<le> retentionHours s" "retentionHours s \<le> 2562047"
  shows "cleanupOldLogs s (Some entries) now removeFails
       = cleanupLoop s removeFails (now - retentionHours s * 3600000000000) entries
           \<lparr>removeCalls = [], removed = [], messages = []\<rparr>"
  unfolding cleanupOldLogs_def Let_def option.case retention_no_overflow [OF assms]
  by simp

lemma cleanupOldLogs_removes_expired_aux:
  assumes "0 \<le> retentionHours s" "retentionHours s \<le> 2562047"
  shows "removeCalls (cleanupOldLogs s (Some entries) now removeFails)
           = map (\<lambda>e. filepath_Join [logDir s, Name e])
               (filter (expired s (now - retentionHours s * 3600000000000)) entries)"
  unfolding cleanupOldLogs_Some [OF assms]
  using cleanupLoop_calls
      [of s removeFails "now - retentionHours s * 3600000000000" entries
          "\<lparr>removeCalls = [], removed = [], messages = []\<rparr>"]
  by (simp del: filepath_Join.simps)

text \<open>
  C7. For a retention window whose nanosecond count fits a \<^verbatim>\<open>time.Duration\<close> (at most
  2562047 hours; the server uses 168), one run of the sweep calls \<^verbatim>\<open>os.Remove\<close> for
  exactly the directory entries that are not directories, whose names parse under the
  layout \<^verbatim>\<open>2006-01-02T15.log\<close> in the server's location and whose parsed time is strictly
  before \<open>now\<close> minus the window, in the order of the listing; the files removed are
  those among them for which \<^verbatim>\<open>os.Remove\<close> succeeds. An entry that is a directory, lacks
  the \<^verbatim>\<open>.log\<close> suffix or fails to parse is never one of them, and nothing is removed when
  the directory cannot be read.
\<close>

theorem cleanupOldLogs_removes_expired:
  assumes "0 \<le> retentionHours s" "retentionHours s \<le> 2562047"
  shows "removeCalls (cleanupOldLogs s (Some entries) now removeFails)
           = map (\<lambda>e. filepath_Join [logDir s, Name e])
               (filter (expired s (now - retentionHours s * 3600000000000)) entries)
       \<and> removed (cleanupOldLogs s (Some entries) now removeFails)
           = map (\<lambda>e. filepath_Join [logDir s, Name e])
               (filter (\<lambda>e. expired s (now - retentionHours s * 3600000000000) e
                          \<and> \<not> removeFails (filepath_Join [logDir s, Name e])) entries)
       \<and> (\<forall>e\<in>set entries.
             IsDir e \<or> \<not> strings_HasSuffix (Name e) ''.log''
               \<or> ParseInLocation (Name e) (location s) = None
             \<longrightarrow> \<not> expired s (now - retentionHours s * 3600000000000) e)
       \<and> removeCalls (cleanupOldLogs s None now removeFails) = []"
proof -
  have untouched: "\<forall>e\<in>set entries.
             IsDir e \<or> \<not> strings_HasSuffix (Name e) ''.log''
               \<or> ParseInLocation (Name e) (location s) = None
             \<longrightarrow> \<not> expired s (now - retentionHours s * 3600000000000) e"
    by (auto simp: expired_iff)
  have none: "removeCalls (cleanupOldLogs s None now removeFails) = []"
    by (simp add: cleanupOldLogs_def)
  have calls: "removeCalls (cleanupOldLogs s (Some entries) now removeFails)
           = map (\<lambda>e. filepath_Join [logDir s, Name e])
               (filter (expired s (now - retentionHours s * 3600000000000)) entries)
       \<and> removed (cleanupOldLogs s (Some entries) now removeFails)
           = map (\<lambda>e. filepath_Join [logDir s, Name e])
               (filter (\<lambda>e. expired s (now - retentionHours s * 3600000000000) e
                          \<and> \<not> removeFails (filepath_Join [logDir s, Name e])) entries)"
    unfolding cleanupOldLogs_Some [OF assms]
    using cleanupLoop_calls
      [of s removeFails "now - retentionHours s * 3600000000000" entries
          "\<lparr>removeCalls = [], removed = [], messages = []\<rparr>"]
    by (simp del: filepath_Join.simps)
  from calls untouched none show ?thesis by blast
qed

text \<open>
  C8 (as amended). Let the retention window be \<open>h\<close> hours, with \<open>1 \<le> h \<le> 2562047\<close>, and
  let all UTC offsets of the server's location lie in an interval of width at most
  \<open>h - 1\<close> hours: any \<open>h\<close> for a location with a fixed offset, \<open>h \<ge> 2\<close> for
  \<^verbatim>\<open>America/Chicago\<close>, whose offsets are one hour apart. Then the sweep evaluated at \<open>now\<close>
  never calls \<^verbatim>\<open>os.Remove\<close> on the file \<open>currentLogFile\<close> names at \<open>now\<close>.
\<close>

theorem current_bucket_kept:
  assumes h: "1 \<le> retentionHours s" "retentionHours s \<le> 2562047"
    and offs: "offsetsWithin (location s) lo hi"
    and spread: "hi - lo \<le> 3600 * (retentionHours s - 1)"
  shows "currentLogFile s now \<notin> set (removeCalls (cleanupOldLogs s readDir now removeFails))"
proof (cases readDir)
  case None
  then show ?thesis by (simp add: cleanupOldLogs_def)
next
  case (Some entries)
  let ?cutoff = "now - retentionHours s * 3600000000000"
  let ?cur = "Format (location s) now @ ''.log''"
  from h have h0: "0 \<le> retentionHours s" by simp
  note calls = cleanupOldLogs_removes_expired_aux
  show ?thesis
  proof
    assume "currentLogFile s now \<in> set (removeCalls (cleanupOldLogs s readDir now removeFails))"
    then have "filepath_Join [logDir s, ?cur]
        \<in> set (map (\<lambda>e. filepath_Join [logDir s, Name e]) (filter (expired s ?cutoff) entries))"
      unfolding Some calls [OF h0 h(2)] by (simp add: currentLogFile_def Let_def del: filepath_Join.simps)
    then obtain e where e: "expired s ?cutoff e"
      and p: "filepath_Join [logDir s, Name e] = filepath_Join [logDir s, ?cur]"
      by (auto simp del: filepath_Join.simps)
    from e obtain t where t: "ParseInLocation (Name e) (location s) = Some t" "t < ?cutoff"
      by (auto simp: expired_iff)
    have "Name e = filepath_Base (filepath_Join [logDir s, Name e])"
      by (rule filepath_Base_Join [symmetric]) (rule ParseInLocation_goodElem [OF t(1)])
    also have "\<dots> = ?cur"
      unfolding p by (rule filepath_Base_Join) (rule Format_goodElem)
    finally have "ParseInLocation ?cur (location s) = Some t"
      using t(1) by simp
    with offs have "now - t < 1000000000 * (3600 + (hi - lo))"
      unfolding offsetsWithin_def by (rule current_bucket_time)
    also have "\<dots> \<le> 1000000000 * (3600 + 3600 * (retentionHours s - 1))"
      using spread by simp
    also have "\<dots> = retentionHours s * 3600000000000"
      by (simp add: algebra_simps)
    finally show False using t(2) by simp
  qed
qed


lemma expired_example:
  "filter (expired (mainServer chicago2025) (1741635420000000000 - 168 * 3600000000000))
     [\<lparr>Name = ''2025-03-01T10.log'', IsDir = False\<rparr>,
      \<lparr>Name = ''2025-03-09T10.log'', IsDir = False\<rparr>,
      \<lparr>Name = ''notes.log'', IsDir = False\<rparr>,
      \<lparr>Name = ''2025-02-01T10.log'', IsDir = True\<rparr>,
      \<lparr>Name = ''2025-02-01T10.txt'', IsDir = False\<rparr>]
   = [\<lparr>Name = ''2025-03-01T10.log'', IsDir = False\<rparr>]"
  by code_simp

lemma join_example:
  "filepath_Join [''/var/log/app'', ''2025-03-01T10.log''] = ''/var/log/app/2025-03-01T10.log''"
  by code_simp

theorem cleanupOldLogs_removes_expired_witness:
  "0 \<le> retentionHours (mainServer chicago2025)
   \<and> retentionHours (mainServer chicago2025) \<le> 2562047
   \<and> removeCalls (cleanupOldLogs (mainServer chicago2025)
        (Some [\<lparr>Name = ''2025-03-01T10.log'', IsDir = False\<rparr>,
               \<lparr>Name = ''2025-03-09T10.log'', IsDir = False\<rparr>,
               \<lparr>Name = ''notes.log'', IsDir = False\<rparr>,
               \<lparr>Name = ''2025-02-01T10.log'', IsDir = True\<rparr>,
               \<lparr>Name = ''2025-02-01T10.txt'', IsDir = False\<rparr>])
        1741635420000000000 (\<lambda>path. False))
     = [''/var/log/app/2025-03-01T10.log'']"
proof -
  have h: "retentionHours (mainServer chicago2025) = 168" and d: "logDir (mainServer chicago2025) = ''/var/log/app''"
    by (simp_all add: mainServer_def)
  have b: "0 \<le> retentionHours (mainServer chicago2025)" "retentionHours (mainServer chicago2025) \<le> 2562047"
    by (simp_all add: h)
  from cleanupOldLogs_removes_expired [OF b, of
      "[\<lparr>Name = ''2025-03-01T10.log'', IsDir = False\<rparr>,
        \<lparr>Name = ''2025-03-09T10.log'', IsDir = False\<rparr>,
        \<lparr>Name = ''notes.log'', IsDir = False\<rparr>,
        \<lparr>Name = ''2025-02-01T10.log'', IsDir = True\<rparr>,
        \<lparr>Name = ''2025-02-01T10.txt'', IsDir = False\<rparr>]" 1741635420000000000 "\<lambda>path. False"]
  have "removeCalls (cleanupOldLogs (mainServer chicago2025)
        (Some [\<lparr>Name = ''2025-03-01T10.log'', IsDir = False\<rparr>,
               \<lparr>Name = ''2025-03-09T10.log'', IsDir = False\<rparr>,
               \<lparr>Name = ''notes.log'', IsDir = False\<rparr>,
               \<lparr>Name = ''2025-02-01T10.log'', IsDir = True\<rparr>,
               \<lparr>Name = ''2025-02-01T10.txt'', IsDir = False\<rparr>])
        1741635420000000000 (\<lambda>path. False))
     = [''/var/log/app/2025-03-01T10.log'']"
    unfolding h d expired_example by (simp add: join_example del: filepath_Join.simps)
  with b show ?thesis by blast
qed

lemma currentLogFile_fallback:
  "currentLogFile ((mainServer chicago2025)\<lparr>retentionHours := 1\<rparr>) 1762068600000000000
     = ''/var/log/app/2025-11-02T01.log''"
  by code_simp

lemma expired_fallback:
  "expired ((mainServer chicago2025)\<lparr>retentionHours := 1\<rparr>)
     (1762068600000000000 - 1 * 3600000000000) \<lparr>Name = ''2025-11-02T01.log'', IsDir = False\<rparr>"
  by code_simp

lemma join_fallback:
  "filepath_Join [''/var/log/app'', ''2025-11-02T01.log''] = ''/var/log/app/2025-11-02T01.log''"
  by code_simp

text \<open>
  C8 as stated fails for a window of one hour. On 2025-11-02 at 07:30 UTC it is 01:30
  standard time in Chicago, in the hour that the end of daylight time repeats. The current
  log file is \<^verbatim>\<open>2025-11-02T01.log\<close>; its name parses to 01:00 daylight time, 06:00 UTC,
  which is an hour and a half before \<open>now\<close>, and the sweep removes it.
\<close>

theorem current_bucket_removed_counterexample:
  "1 \<le> retentionHours ((mainServer chicago2025)\<lparr>retentionHours := 1\<rparr>)
   \<and> currentLogFile ((mainServer chicago2025)\<lparr>retentionHours := 1\<rparr>) 1762068600000000000
       \<in> set (removeCalls (cleanupOldLogs ((mainServer chicago2025)\<lparr>retentionHours := 1\<rparr>)
                (Some [\<lparr>Name = ''2025-11-02T01.log'', IsDir = False\<rparr>])
                1762068600000000000 (\<lambda>path. False)))"
proof -
  let ?s = "(mainServer chicago2025)\<lparr>retentionHours := 1\<rparr>"
  have h: "retentionHours ?s = 1" and d: "logDir ?s = ''/var/log/app''"
    by (simp_all add: mainServer_def)
  have b: "0 \<le> retentionHours ?s" "retentionHours ?s \<le> 2562047"
    by (simp_all add: h)
  have "removeCalls (cleanupOldLogs ?s (Some [\<lparr>Name = ''2025-11-02T01.log'', IsDir = False\<rparr>])
          1762068600000000000 (\<lambda>path. False)) = [''/var/log/app/2025-11-02T01.log'']"
    unfolding cleanupOldLogs_removes_expired_aux [OF b] h d
    using expired_fallback by (simp add: join_fallback del: filepath_Join.simps)
  then show ?thesis
    by (simp add: currentLogFile_fallback h)
qed

theorem current_bucket_kept_witness:
  "1 \<le> retentionHours (mainServer chicago2025)
   \<and> retentionHours (mainServer chicago2025) \<le> 2562047
   \<and> offsetsWithin (location (mainServer chicago2025)) (- 21600) (- 18000)
   \<and> - 18000 - (- 21600) \<le> 3600 * (retentionHours (mainServer chicago2025) - 1)
   \<and> currentLogFile (mainServer chicago2025) 1762068600000000000
       \<notin> set (removeCalls (cleanupOldLogs (mainServer chicago2025)
                (Some [\<lparr>Name = ''2025-11-02T01.log'', IsDir = False\<rparr>,
                       \<lparr>Name = ''2025-10-01T01.log'', IsDir = False\<rparr>])
                1762068600000000000 (\<lambda>path. False)))"
proof -
  have h: "1 \<le> retentionHours (mainServer chicago2025)"
    "retentionHours (mainServer chicago2025) \<le> 2562047"
    by (simp_all add: mainServer_def)
  have o: "offsetsWithin (location (mainServer chicago2025)) (- 21600) (- 18000)"
    by (simp add: offsetsWithin_def mainServer_def chicago2025_def)
  have sp: "- 18000 - (- 21600) \<le> 3600 * (retentionHours (mainServer chicago2025) - 1)"
    by (simp add: mainServer_def)
  from current_bucket_kept [OF h o sp] h o sp show ?thesis by blast
qed

end
